theory Spec2Isabelle
  imports Complex_Main "HOL-Library.Word" "HOL-Library.Char_ord" "HOL-Library.List_Lexorder"
    "HOL-Library.Log_Nat"
begin

section \<open>The space-time stack profiler (kp\_space\_time\_stack.cpp)\<close>

text \<open>
  Conventions of the embedding.
  \<^item> A finite \<open>double\<close> (a run time) is the real number that it denotes. The operations
    of the program on doubles round their exact result to the nearest double
    (\<open>round_double\<close>). The quotients and products of the report are of type \<open>dbl\<close>,
    which has the infinities and the NaN of IEEE arithmetic beside the finite values. The
    reductions of MPI, and the division by the number of processes that follows them, are
    taken exactly.
  \<^item> \<open>std::uint64_t\<close> is \<open>64 word\<close>; \<open>void*\<close> is the 64-bit address value.
  \<^item> \<open>std::set<T>\<close> is the list of its elements in the order of the comparison, without
    equivalent elements; \<open>find\<close>, \<open>emplace\<close> and \<open>erase\<close> are the functions
    \<open>set_find\<close>, \<open>set_emplace\<close> and \<open>set_erase\<close>.
  \<^item> \<open>assert\<close> is enabled, \<open>abort()\<close> and a failed \<open>assert\<close> are values of
    type \<open>error\<close>.
\<close>

subsection \<open>std::set\<close>

definition equiv_by :: "('a \<Rightarrow> 'a \<Rightarrow> bool) \<Rightarrow> 'a \<Rightarrow> 'a \<Rightarrow> bool" where
  "equiv_by lt a b = (\<not> lt a b \<and> \<not> lt b a)"

fun set_find :: "('a \<Rightarrow> 'a \<Rightarrow> bool) \<Rightarrow> 'a \<Rightarrow> 'a list \<Rightarrow> 'a option" where
  "set_find lt k [] = None"
| "set_find lt k (x # xs) = (if equiv_by lt x k then Some x else set_find lt k xs)"

text \<open>\<open>emplace\<close> returns the container and whether the element was inserted.\<close>

fun set_emplace :: "('a \<Rightarrow> 'a \<Rightarrow> bool) \<Rightarrow> 'a \<Rightarrow> 'a list \<Rightarrow> 'a list \<times> bool" where
  "set_emplace lt v [] = ([v], True)"
| "set_emplace lt v (x # xs) =
     (if lt v x then (v # x # xs, True)
      else if lt x v then (case set_emplace lt v xs of (ys, b) \<Rightarrow> (x # ys, b))
      else (x # xs, False))"

fun set_erase :: "('a \<Rightarrow> 'a \<Rightarrow> bool) \<Rightarrow> 'a \<Rightarrow> 'a list \<Rightarrow> 'a list" where
  "set_erase lt k [] = []"
| "set_erase lt k (x # xs) = (if equiv_by lt x k then xs else x # set_erase lt k xs)"

subsection \<open>Errors\<close>

datatype error =
    Abort string   \<comment> \<open>\<open>abort()\<close> after the text written to \<open>std::cerr\<close>\<close>
  | AssertFail     \<comment> \<open>a failed \<open>assert\<close>\<close>
  | InvalidPointer \<comment> \<open>a null or dangling \<open>StackNode*\<close> is dereferenced\<close>

subsection \<open>Arithmetic on \<open>double\<close>\<close>

text \<open>
  IEEE 754 binary64 in the default rounding mode: the result of an operation is the exact
  result rounded to the nearest double, and of two nearest ones to the one with the even
  significand. The doubles around \<open>x\<close> are the multiples of \<open>2 powi ulp_exp x\<close>: a
  significand has 53 bits, and the exponent of the last bit is at least \<open>-1074\<close> (the
  subnormal numbers). \<open>rne\<close> rounds to the nearest integer, a half to the even one.

  The sign of a zero is not kept. \<open>round_double\<close> has no largest exponent: it is the
  rounding of the sums and differences of run times, which are seconds of wall-clock time
  and stay far below \<open>2 ^ 1024\<close>. \<open>dbl_round\<close> gives the infinities where the rounded
  result leaves the range of the finite doubles.
\<close>

definition rne :: "real \<Rightarrow> int" where
  "rne y =
     (let f = \<lfloor>y\<rfloor>; r = y - of_int f in
      if r < 1 / 2 then f else if 1 / 2 < r then f + 1 else if even f then f else f + 1)"

definition ulp_exp :: "real \<Rightarrow> int" where
  "ulp_exp x = max (bitlen \<lfloor>\<bar>x\<bar> * 2 ^ 1074\<rfloor> - 1127) (- 1074)"

definition round_double :: "real \<Rightarrow> real" where
  "round_double x = of_int (rne (x / 2 powi ulp_exp x)) * 2 powi ulp_exp x"

datatype dbl = Finite real | PlusInf | MinusInf | NaN

definition dbl_round :: "real \<Rightarrow> dbl" where
  "dbl_round x =
     (let r = round_double x in
      if 2 ^ 1024 \<le> r then PlusInf else if r \<le> - (2 ^ 1024) then MinusInf else Finite r)"

subsection \<open>Frames\<close>

datatype StackKind = STACK_FOR | STACK_REDUCE | STACK_SCAN | STACK_REGION | STACK_COPY

fun int_of_kind :: "StackKind \<Rightarrow> int" where
  "int_of_kind STACK_FOR = 0"
| "int_of_kind STACK_REDUCE = 1"
| "int_of_kind STACK_SCAN = 2"
| "int_of_kind STACK_REGION = 3"
| "int_of_kind STACK_COPY = 4"

text \<open>
  \<open>struct StackNode\<close>. The children are held by value, as in \<open>std::set<StackNode>\<close>.
  The constructor leaves \<open>max_runtime\<close> and \<open>avg_runtime\<close> uninitialised
  (\<open>None\<close>) and \<open>start_time\<close> at the clock's epoch; \<open>number_of_calls\<close> is an
  \<open>int64_t\<close> counter, which no run can overflow, and is an integer here.
  \<open>Now\<close> is the tick count of the clock in nanoseconds.

  A \<open>StackNode*\<close> is the position of the frame in the tree owned by the root: the
  \<open>(kind, name)\<close> keys of the children to follow from the root. The null pointer is
  \<open>None\<close>. The \<open>parent\<close> member of the frame at position \<open>p\<close> points to the frame
  that holds it in its \<open>children\<close>, at position \<open>butlast p\<close>; it is null for the root.
  Positions are stable because a \<open>std::set\<close> never moves or copies an element on
  insertion, frames are never erased and the keys of a frame never change.
\<close>

type_synonym Now = int

datatype StackNode = StackNode
  (name: string) (kind: StackKind) (children: "StackNode list")
  (total_runtime: real) (max_runtime: "real option") (avg_runtime: "real option")
  (number_of_calls: int) (start_time: Now)

type_synonym frame_key = "StackKind \<times> string"
type_synonym frame_ptr = "frame_key list option"

definition StackNode_new :: "string \<Rightarrow> StackKind \<Rightarrow> StackNode" where
  "StackNode_new name_in kind_in = StackNode name_in kind_in [] 0 None None 0 0"

definition key_of :: "StackNode \<Rightarrow> frame_key" where
  "key_of n = (kind n, name n)"

fun set_children :: "StackNode list \<Rightarrow> StackNode \<Rightarrow> StackNode" where
  "set_children cs (StackNode nm kd _ tot mx av calls st) = StackNode nm kd cs tot mx av calls st"

text \<open>\<open>StackNode::operator<\<close>; \<open>std::string\<close> compares bytes as unsigned values.\<close>

definition StackNode_less :: "StackNode \<Rightarrow> StackNode \<Rightarrow> bool" where
  "StackNode_less a other =
     (if kind a \<noteq> kind other then int_of_kind (kind a) < int_of_kind (kind other)
      else name a < name other)"

text \<open>
  \<open>StackNode::get_child\<close> on the frame itself: the frame with the child in place, and the
  key of the child that the returned pointer designates.
\<close>

definition get_child :: "string \<Rightarrow> StackKind \<Rightarrow> StackNode \<Rightarrow> StackNode \<times> frame_key" where
  "get_child child_name child_kind n =
     (let candidate = StackNode_new child_name child_kind in
      case set_find StackNode_less candidate (children n) of
        Some it \<Rightarrow> (n, key_of it)
      | None \<Rightarrow> (set_children (fst (set_emplace StackNode_less candidate (children n))) n,
                 key_of candidate))"

text \<open>
  \<open>StackNode::begin\<close> and \<open>StackNode::end\<close>. \<open>operator-(Now, Now)\<close> converts the
  number of nanoseconds to \<open>double\<close> and multiplies it by the literal \<open>1e-9\<close>, which is
  the double \<open>nano\<close>.
\<close>

definition nano :: real where
  "nano = 4835703278458517 / 2 ^ 82"

definition Now_diff :: "Now \<Rightarrow> Now \<Rightarrow> real" where
  "Now_diff b a = round_double (round_double (real_of_int (b - a)) * nano)"

fun StackNode_begin :: "Now \<Rightarrow> StackNode \<Rightarrow> StackNode" where
  "StackNode_begin t (StackNode nm kd cs tot mx av calls st) =
     StackNode nm kd cs tot mx av (calls + 1) t"

fun StackNode_end :: "Now \<Rightarrow> StackNode \<Rightarrow> StackNode" where
  "StackNode_end end_time (StackNode nm kd cs tot mx av calls st) =
     StackNode nm kd cs (round_double (tot + Now_diff end_time st)) mx av calls st"

subsection \<open>Pointers into the tree\<close>

fun find_child :: "frame_key \<Rightarrow> StackNode list \<Rightarrow> StackNode option" where
  "find_child k [] = None"
| "find_child k (c # cs) = (if key_of c = k then Some c else find_child k cs)"

fun modify_child :: "frame_key \<Rightarrow> (StackNode \<Rightarrow> StackNode) \<Rightarrow> StackNode list \<Rightarrow> StackNode list" where
  "modify_child k f [] = []"
| "modify_child k f (c # cs) = (if key_of c = k then f c # cs else c # modify_child k f cs)"

text \<open>Reading through a pointer, and writing through it.\<close>

fun deref :: "StackNode \<Rightarrow> frame_key list \<Rightarrow> StackNode option" where
  "deref n [] = Some n"
| "deref n (k # ks) = (case find_child k (children n) of None \<Rightarrow> None | Some c \<Rightarrow> deref c ks)"

fun modify :: "(StackNode \<Rightarrow> StackNode) \<Rightarrow> frame_key list \<Rightarrow> StackNode \<Rightarrow> StackNode" where
  "modify f [] n = f n"
| "modify f (k # ks) n = set_children (modify_child k (\<lambda>c. modify f ks c) (children n)) n"

fun parent_ptr :: "frame_key list \<Rightarrow> frame_ptr" where
  "parent_ptr [] = None"
| "parent_ptr (k # ks) = Some (butlast (k # ks))"

lemma parent_ptr_length:
  "(case parent_ptr p of None \<Rightarrow> 0 | Some ks \<Rightarrow> Suc (length ks)) = length p"
  by (cases p) auto

text \<open>\<open>p->get_child(name, kind)\<close> for a pointer \<open>p\<close> into the tree owned by \<open>rt\<close>.\<close>

definition ptr_get_child ::
  "StackNode \<Rightarrow> frame_ptr \<Rightarrow> string \<Rightarrow> StackKind \<Rightarrow> error + (StackNode \<times> frame_ptr)" where
  "ptr_get_child rt p child_name child_kind =
     (case p of
        None \<Rightarrow> Inl InvalidPointer
      | Some ks \<Rightarrow>
          (case deref rt ks of
             None \<Rightarrow> Inl InvalidPointer
           | Some n \<Rightarrow>
               Inr (modify (\<lambda>n. fst (get_child child_name child_kind n)) ks rt,
                    Some (ks @ [snd (get_child child_name child_kind n)]))))"

text \<open>
  \<open>StackNode::get_full_name\<close>: the loop over \<open>p = this; p; p = p->parent\<close>, with the
  \<open>continue\<close> for the unnamed root. A call through a null or dangling pointer is an error.
\<close>

function get_full_name_loop :: "StackNode \<Rightarrow> frame_ptr \<Rightarrow> string \<Rightarrow> error + string" where
  "get_full_name_loop rt None full_name = Inr full_name"
| "get_full_name_loop rt (Some p) full_name =
     (case deref rt p of
        None \<Rightarrow> Inl InvalidPointer
      | Some n \<Rightarrow>
          if name n = [] \<and> parent_ptr p = None
          then get_full_name_loop rt (parent_ptr p) full_name
          else get_full_name_loop rt (parent_ptr p) (name n @ [CHR ''/''] @ full_name))"
  by pat_completeness auto
termination
  by (relation "measure (\<lambda>(rt, p, full_name). case p of None \<Rightarrow> 0 | Some ks \<Rightarrow> Suc (length ks))")
     (simp_all add: parent_ptr_length)

declare get_full_name_loop.simps [simp del]

definition get_full_name :: "StackNode \<Rightarrow> frame_ptr \<Rightarrow> error + string" where
  "get_full_name rt this =
     (case this of None \<Rightarrow> Inl InvalidPointer | Some p \<Rightarrow> get_full_name_loop rt (Some p) [])"

text \<open>
  What a frame holds besides its children, the frame behind a pointer, and a sequence of
  \<open>get_child\<close> calls through pointers into the same tree.
\<close>

definition frame_fields ::
  "StackNode \<Rightarrow> string \<times> StackKind \<times> real \<times> real option \<times> real option \<times> int \<times> Now" where
  "frame_fields n =
     (name n, kind n, total_runtime n, max_runtime n, avg_runtime n, number_of_calls n,
      start_time n)"

fun get_child_calls ::
  "StackNode \<Rightarrow> (frame_ptr \<times> string \<times> StackKind) list \<Rightarrow> error + StackNode" where
  "get_child_calls rt [] = Inr rt"
| "get_child_calls rt ((p, nm, kd) # calls) =
     (case ptr_get_child rt p nm kd of
        Inl e \<Rightarrow> Inl e
      | Inr (rt', child) \<Rightarrow> get_child_calls rt' calls)"

definition deref_ptr :: "StackNode \<Rightarrow> frame_ptr \<Rightarrow> StackNode option" where
  "deref_ptr rt p = (case p of None \<Rightarrow> None | Some ks \<Rightarrow> deref rt ks)"

text \<open>
  \<open>extends rt rt'\<close>: every pointer that is valid in \<open>rt\<close> is valid in \<open>rt'\<close>
  and designates a frame with the same fields.
\<close>

definition extends :: "StackNode \<Rightarrow> StackNode \<Rightarrow> bool" where
  "extends rt rt' \<longleftrightarrow>
     (\<forall>q m. deref rt q = Some m \<longrightarrow>
        (\<exists>m'. deref rt' q = Some m' \<and> frame_fields m' = frame_fields m))"

subsection \<open>Inversion\<close>

text \<open>
  \<open>StackNode::invert\<close>, called on the root. The queue holds pointers to frames of the
  tree that is inverted, which the loop only reads: an entry is the frame together with the
  keys of its ancestors, nearest first, which is what the walk along \<open>parent\<close> reads.
\<close>

fun add_times :: "real \<Rightarrow> int \<Rightarrow> StackNode \<Rightarrow> StackNode" where
  "add_times self_time calls (StackNode nm kd cs tot mx av n st) =
     StackNode nm kd cs (round_double (tot + self_time)) mx av (n + calls) st"

text \<open>The inner loop \<open>for (; node; node = node->parent)\<close>, from \<open>inv_node\<close> downwards.\<close>

fun invert_walk :: "frame_key list \<Rightarrow> real \<Rightarrow> int \<Rightarrow> StackNode \<Rightarrow> StackNode" where
  "invert_walk [] self_time calls inv_node = inv_node"
| "invert_walk (k # ks) self_time calls inv_node =
     (case get_child (snd k) (fst k) inv_node of
        (inv_node', k') \<Rightarrow>
          set_children
            (modify_child k' (\<lambda>c. invert_walk ks self_time calls (add_times self_time calls c))
               (children inv_node'))
            inv_node')"

lemma children_size: "sum_list (map size (children node)) < size node"
proof (cases node)
  case (StackNode nm kd cs tot mx av n st)
  have "sum_list (map size cs) \<le> size_list size cs"
    by (induction cs) auto
  with StackNode show ?thesis by simp
qed

function invert_loop :: "(StackNode \<times> frame_key list) list \<Rightarrow> StackNode \<Rightarrow> StackNode" where
  "invert_loop [] inv_root = inv_root"
| "invert_loop ((node, ancestors) # q) inv_root =
     (let self_time = foldl (\<lambda>s child. round_double (s - total_runtime child))
                        (total_runtime node) (children node);
          calls = number_of_calls node;
          q' = q @ map (\<lambda>child. (child, key_of node # ancestors)) (children node)
      in invert_loop q'
           (invert_walk (key_of node # ancestors) self_time calls
              (add_times self_time calls inv_root)))"
  by pat_completeness auto
termination
proof (relation "measure (\<lambda>(q, inv_root). sum_list (map (\<lambda>e. size (fst e)) q))", goal_cases)
  case 1
  show ?case by simp
next
  case (2 node ancestors q inv_root self_time calls q')
  have "sum_list (map (\<lambda>e. size (fst e)) q') =
        sum_list (map (\<lambda>e. size (fst e)) q) + sum_list (map size (children node))"
    by (simp add: 2(3) comp_def)
  with children_size [of node] show ?case by simp
qed

definition invert :: "StackNode \<Rightarrow> StackNode" where
  "invert this = invert_loop [(this, [])] (StackNode_new [] STACK_REGION)"

text \<open>
  Trees in which no difference and no sum of \<open>invert\<close> is rounded: every total is a
  multiple of \<open>2 powi j\<close> that is not negative, and the totals of the children of a frame
  add up to at most the total of the frame.
\<close>

definition on_grid :: "int \<Rightarrow> real \<Rightarrow> bool" where
  "on_grid j x \<longleftrightarrow> x / 2 powi j = of_int \<lfloor>x / 2 powi j\<rfloor>"

fun dyadic_times :: "int \<Rightarrow> StackNode \<Rightarrow> bool" where
  "dyadic_times j (StackNode nm kd cs tot mx av calls st) \<longleftrightarrow>
     on_grid j tot \<and> 0 \<le> tot \<and> sum_list (map total_runtime cs) \<le> tot \<and>
     list_all (dyadic_times j) cs"

subsection \<open>Printing\<close>

text \<open>
  The two quotients of \<open>print_recursive\<close> are the only divisions of run times. Their
  divisors can be zero, and IEEE division then gives an infinity or a NaN, which the
  comparison and the output see. A zero divisor is \<open>+0.0\<close>: a run time starts at
  \<open>0.0\<close> and changes by additions, which give \<open>-0.0\<close> only from two negative zeros.
\<close>

definition dbl_div :: "real \<Rightarrow> real \<Rightarrow> dbl" where
  "dbl_div a b =
     (if b \<noteq> 0 then dbl_round (a / b)
      else if a > 0 then PlusInf else if a < 0 then MinusInf else NaN)"

text \<open>
  \<open>x * 100.0\<close>, \<open>x - 1.0\<close> and \<open>x < c\<close> for a finite \<open>c\<close>. The literal \<open>0.1\<close> of the
  comparison is the double \<open>tenth\<close>.
\<close>

fun times_100 :: "dbl \<Rightarrow> dbl" where
  "times_100 (Finite x) = dbl_round (x * 100)"
| "times_100 PlusInf = PlusInf"
| "times_100 MinusInf = MinusInf"
| "times_100 NaN = NaN"

fun minus_1 :: "dbl \<Rightarrow> dbl" where
  "minus_1 (Finite x) = dbl_round (x - 1)"
| "minus_1 PlusInf = PlusInf"
| "minus_1 MinusInf = MinusInf"
| "minus_1 NaN = NaN"

definition tenth :: real where
  "tenth = 3602879701896397 / 2 ^ 55"

fun dbl_less :: "dbl \<Rightarrow> real \<Rightarrow> bool" where
  "dbl_less (Finite x) c = (x < c)"
| "dbl_less PlusInf c = False"
| "dbl_less MinusInf c = True"
| "dbl_less NaN c = False"

text \<open>
  A line of the report: indentation, percent, imbalance, number of calls, name and kind.
  The imbalance is \<open>None\<close> when it is computed from an uninitialised \<open>max_runtime\<close> or
  \<open>avg_runtime\<close>. \<open>Blank\<close> is the empty line that ends a tree.
\<close>

datatype report_line =
    Line string dbl "dbl option" int string StackKind
  | Blank

definition imbalance_of :: "StackNode \<Rightarrow> dbl option" where
  "imbalance_of n =
     (case (max_runtime n, avg_runtime n) of
        (Some mx, Some av) \<Rightarrow> Some (times_100 (minus_1 (dbl_div mx av)))
      | _ \<Rightarrow> None)"

text \<open>The comparison \<open>by_time\<close> and the set \<open>children_by_time\<close> that it orders.\<close>

definition by_time :: "StackNode \<Rightarrow> StackNode \<Rightarrow> bool" where
  "by_time a b =
     (if total_runtime a \<noteq> total_runtime b then total_runtime a > total_runtime b
      else name a < name b)"

definition children_by_time :: "StackNode \<Rightarrow> StackNode list" where
  "children_by_time n = foldl (\<lambda>s child. fst (set_emplace by_time child s)) [] (children n)"

lemma set_emplace_subset: "set (fst (set_emplace lt v xs)) \<subseteq> insert v (set xs)"
  by (induction xs) (auto split: prod.splits)

lemma children_by_time_subset: "set (children_by_time n) \<subseteq> set (children n)"
proof -
  have "set (foldl (\<lambda>s child. fst (set_emplace by_time child s)) acc cs) \<subseteq> set acc \<union> set cs"
    for acc cs
  proof (induction cs arbitrary: acc)
    case Nil
    show ?case by simp
  next
    case (Cons c cs)
    from Cons [of "fst (set_emplace by_time c acc)"] set_emplace_subset [of by_time c acc]
    show ?case by auto
  qed
  from this [of "[]" "children n"] show ?thesis by (simp add: children_by_time_def)
qed

lemma child_size: "c \<in> set (children n) \<Longrightarrow> size c < size n"
proof -
  assume "c \<in> set (children n)"
  then have "size c \<le> sum_list (map size (children n))"
    by (simp add: member_le_sum_list)
  with children_size [of n] show ?thesis by simp
qed

function print_recursive :: "string \<Rightarrow> string \<Rightarrow> real \<Rightarrow> StackNode \<Rightarrow> report_line list" where
  "print_recursive my_indent child_indent tree_time n =
     (let percent = times_100 (dbl_div (total_runtime n) tree_time) in
      if dbl_less percent tenth then []
      else
        (if name n \<noteq> []
         then [Line my_indent percent (imbalance_of n) (number_of_calls n) (name n) (kind n)]
         else []) @
        (if children n = [] then []
         else
           concat (map (\<lambda>(i, child).
                     print_recursive (child_indent @ ''|-> '')
                       (if i = length (children_by_time n) - 1
                        then child_indent @ ''    '' else child_indent @ ''|   '')
                       tree_time child)
                   (enumerate 0 (children_by_time n)))))"
  by pat_completeness auto
termination
proof (relation "measure (\<lambda>(my_indent, child_indent, tree_time, n). size n)", goal_cases)
  case 1
  show ?case by simp
next
  case (2 my_indent child_indent tree_time n percent x i child)
  then have "child \<in> set (children_by_time n)"
    by (auto simp: in_set_enumerate_eq)
  with children_by_time_subset [of n] have "child \<in> set (children n)" by blast
  then show ?case by (simp add: child_size)
qed

declare print_recursive.simps [simp del]

definition print :: "StackNode \<Rightarrow> report_line list" where
  "print this = print_recursive [] [] (total_runtime this) this @ [Blank]"

subsection \<open>Reduction over the processes\<close>

text \<open>
  \<open>StackNode::reduce_over_mpi\<close>, run by all processes of \<open>MPI_COMM_WORLD\<close> at once. The
  processes visit the frames in lockstep: a visit is one round of collective calls, in which
  every process takes part with its own frame. A visit is the function \<open>reduce_nodes\<close>
  on the frames of the processes, rank 0 first; the number of processes is the length of
  the list.

  A visit changes the three times of the visited frame on every process, lets every other
  process adopt the children that rank 0 broadcasts (\<open>get_child\<close>), and queues the
  children of rank 0 with the children that \<open>get_child\<close> returned on the other ranks. The
  visits of different frames touch different frames, so the order in which the queue
  releases them plays no part in the result, and the visit of a child is a recursive call.
  The children of a frame have different keys, as the elements of a \<open>std::set\<close>.
\<close>

definition allreduce_sum :: "real list \<Rightarrow> real" where
  "allreduce_sum xs = sum_list xs"

definition allreduce_max :: "real list \<Rightarrow> real" where
  "allreduce_max xs = fold max (tl xs) (hd xs)"

fun set_runtimes :: "real \<Rightarrow> real \<Rightarrow> real \<Rightarrow> StackNode \<Rightarrow> StackNode" where
  "set_runtimes tot mx av (StackNode nm kd cs _ _ _ calls st) =
     StackNode nm kd cs tot (Some mx) (Some av) calls st"

text \<open>
  The loop of a process other than rank 0 over the broadcast children: the frame with the
  children adopted, and the children that the \<open>get_child\<close> calls returned.
\<close>

fun adopt :: "StackNode list \<Rightarrow> StackNode \<Rightarrow> StackNode \<times> StackNode list" where
  "adopt [] n = (n, [])"
| "adopt (c # cs) n =
     (case get_child (name c) (kind c) n of
        (n', k) \<Rightarrow>
          (case adopt cs n' of
             (n'', kids) \<Rightarrow> (n'', the (find_child k (children n')) # kids)))"

text \<open>Writing a visited child back into its frame.\<close>

definition put_child :: "StackNode \<Rightarrow> StackNode \<Rightarrow> StackNode" where
  "put_child kid n = set_children (modify_child (key_of kid) (\<lambda>c. kid) (children n)) n"

function reduce_nodes :: "StackNode list \<Rightarrow> StackNode list" where
  "reduce_nodes [] = []"
| "reduce_nodes (node # others) =
     (let comm_size = length (node # others);
          times = map total_runtime (node # others);
          tot = allreduce_sum times;
          mx = allreduce_max times;
          av = allreduce_sum times / real comm_size;
          node' = set_runtimes tot mx av node;
          adopted = map (\<lambda>n. adopt (children node') (set_runtimes tot mx av n)) others;
          visits = map (\<lambda>(i, child). reduce_nodes (child # map (\<lambda>a. snd a ! i) adopted))
                     (enumerate 0 (children node'))
      in set_children (map hd visits) node' #
         map (\<lambda>(r, a). fold (\<lambda>visit n. put_child (visit ! Suc r) n) visits (fst a))
           (enumerate 0 adopted))"
  by pat_completeness auto
termination
proof (relation "measure (\<lambda>nodes. case nodes of [] \<Rightarrow> 0 | n # _ \<Rightarrow> size n)", goal_cases)
  case 1
  show ?case by simp
next
  case (2 node others comm_size times tot mx av node' adopted x i child)
  then have "child \<in> set (children node)"
    by (cases node) (auto simp: in_set_enumerate_eq)
  then show ?case by (simp add: child_size)
qed

declare reduce_nodes.simps [simp del]

definition reduce_over_mpi :: "StackNode list \<Rightarrow> StackNode list" where
  "reduce_over_mpi trees = reduce_nodes trees"

text \<open>
  The frames of a tree, the tree of the keys of a tree, the total of the frame at a position
  on one process (zero when the process has no frame there), the totals of all processes
  at a position, and the child that a process visits for a child of rank 0.
\<close>

fun all_frames :: "StackNode \<Rightarrow> StackNode list" where
  "all_frames (StackNode nm kd cs tot mx av calls st) =
     StackNode nm kd cs tot mx av calls st # concat (map all_frames cs)"

text \<open>
  The loop of \<open>reduce_over_mpi\<close> that is compiled without \<open>USE_MPI\<close>: every frame
  gets its own total as maximum and as average.
\<close>

fun reduce_serial :: "StackNode \<Rightarrow> StackNode" where
  "reduce_serial (StackNode nm kd cs tot mx av calls st) =
     StackNode nm kd (map reduce_serial cs) tot (Some tot) (Some tot) calls st"

datatype shape = Shape frame_key "shape list"

fun shape_of :: "StackNode \<Rightarrow> shape" where
  "shape_of (StackNode nm kd cs tot mx av calls st) = Shape (kd, nm) (map shape_of cs)"

definition local_total :: "StackNode \<Rightarrow> frame_key list \<Rightarrow> real" where
  "local_total t p = (case deref t p of None \<Rightarrow> 0 | Some f \<Rightarrow> total_runtime f)"

definition adopted_child :: "StackNode \<Rightarrow> StackNode \<Rightarrow> StackNode" where
  "adopted_child c n =
     (case find_child (key_of c) (children n) of
        Some x \<Rightarrow> x
      | None \<Rightarrow> StackNode_new (name c) (kind c))"

definition frame_totals :: "StackNode list \<Rightarrow> frame_key list \<Rightarrow> real list" where
  "frame_totals trees p = map (\<lambda>t. local_total t p) trees"

subsection \<open>Allocations\<close>

record Allocation =
  alloc_name :: string
  alloc_ptr :: "64 word"
  alloc_size :: "64 word"
  alloc_frame :: frame_ptr

definition Allocation_less :: "Allocation \<Rightarrow> Allocation \<Rightarrow> bool" where
  "Allocation_less a other =
     (if alloc_size a \<noteq> alloc_size other then alloc_size a > alloc_size other
      else alloc_ptr a < alloc_ptr other)"

record Allocations =
  total_size :: "64 word"
  alloc_set :: "Allocation list"

definition Allocations_init :: Allocations where
  "Allocations_init = \<lparr>total_size = 0, alloc_set = []\<rparr>"

definition Allocations_allocate ::
  "string \<Rightarrow> 64 word \<Rightarrow> 64 word \<Rightarrow> frame_ptr \<Rightarrow> Allocations \<Rightarrow> error + Allocations" where
  "Allocations_allocate nm p sz fr a =
     (case set_emplace Allocation_less
             \<lparr>alloc_name = nm, alloc_ptr = p, alloc_size = sz, alloc_frame = fr\<rparr> (alloc_set a) of
        (s, inserted) \<Rightarrow>
          if \<not> inserted then Inl AssertFail
          else Inr \<lparr>total_size = total_size a + sz, alloc_set = s\<rparr>)"

definition Allocations_deallocate ::
  "string \<Rightarrow> 64 word \<Rightarrow> 64 word \<Rightarrow> frame_ptr \<Rightarrow> Allocations \<Rightarrow> error + Allocations" where
  "Allocations_deallocate nm p sz fr a =
     (let key = \<lparr>alloc_name = nm, alloc_ptr = p, alloc_size = sz, alloc_frame = fr\<rparr> in
      case set_find Allocation_less key (alloc_set a) of
        None \<Rightarrow> Inl AssertFail
      | Some it \<Rightarrow>
          Inr \<lparr>total_size = total_size a - alloc_size it,
               alloc_set = set_erase Allocation_less key (alloc_set a)\<rparr>)"

subsection \<open>The session\<close>

datatype Space = SPACE_HOST | SPACE_CUDA

record State =
  stack_root :: StackNode
  stack_frame :: frame_ptr
  current_allocations :: "Space \<Rightarrow> Allocations"
  hwm_allocations :: "Space \<Rightarrow> Allocations"

text \<open>The constructor; the argument is the value of \<open>now()\<close>, as in every operation below.\<close>

definition State_init :: "Now \<Rightarrow> State" where
  "State_init t =
     \<lparr>stack_root = StackNode_begin t (StackNode_new [] STACK_REGION),
      stack_frame = Some [],
      current_allocations = (\<lambda>space. Allocations_init),
      hwm_allocations = (\<lambda>space. Allocations_init)\<rparr>"

definition begin_frame :: "string \<Rightarrow> StackKind \<Rightarrow> Now \<Rightarrow> State \<Rightarrow> error + State" where
  "begin_frame nm kd t s =
     (case ptr_get_child (stack_root s) (stack_frame s) nm kd of
        Inl e \<Rightarrow> Inl e
      | Inr (rt, None) \<Rightarrow> Inl InvalidPointer
      | Inr (rt, Some child) \<Rightarrow>
          Inr (s\<lparr>stack_root := modify (StackNode_begin t) child rt, stack_frame := Some child\<rparr>))"

definition end_frame :: "Now \<Rightarrow> State \<Rightarrow> error + State" where
  "end_frame end_time s =
     (case stack_frame s of
        None \<Rightarrow> Inl InvalidPointer
      | Some p \<Rightarrow>
          (case deref (stack_root s) p of
             None \<Rightarrow> Inl InvalidPointer
           | Some n \<Rightarrow>
               Inr (s\<lparr>stack_root := modify (StackNode_end end_time) p (stack_root s),
                      stack_frame := parent_ptr p\<rparr>)))"

text \<open>
  The kernel identifier is the value of the pointer (\<open>reinterpret_cast\<close>), so it is a
  pointer here.
\<close>

definition begin_kernel :: "string \<Rightarrow> StackKind \<Rightarrow> Now \<Rightarrow> State \<Rightarrow> error + (frame_ptr \<times> State)" where
  "begin_kernel nm kd t s =
     (case begin_frame nm kd t s of Inl e \<Rightarrow> Inl e | Inr s' \<Rightarrow> Inr (stack_frame s', s'))"

definition quoted :: "string \<Rightarrow> string" where
  "quoted x = [CHR 0x22] @ x @ [CHR 0x22]"

definition end_kernel :: "frame_ptr \<Rightarrow> Now \<Rightarrow> State \<Rightarrow> error + State" where
  "end_kernel kernid end_time s =
     (let expect_node = kernid in
      if expect_node \<noteq> stack_frame s then
        (case get_full_name (stack_root s) (stack_frame s) of
           Inl e \<Rightarrow> Inl e
         | Inr full_name \<Rightarrow>
             Inl (Abort (''Expected '' @ quoted full_name @
                         '' to end, got different kernel ID'' @ [CHR 0x0A])))
      else end_frame end_time s)"

definition push_region :: "string \<Rightarrow> Now \<Rightarrow> State \<Rightarrow> error + State" where
  "push_region nm t s = begin_frame nm STACK_REGION t s"

definition pop_region :: "Now \<Rightarrow> State \<Rightarrow> error + State" where
  "pop_region t s = end_frame t s"

definition begin_deep_copy :: "string \<Rightarrow> string \<Rightarrow> Now \<Rightarrow> State \<Rightarrow> error + State" where
  "begin_deep_copy dst_name src_name t s =
     begin_frame (quoted dst_name @ ''='' @ quoted src_name) STACK_COPY t s"

definition end_deep_copy :: "Now \<Rightarrow> State \<Rightarrow> error + State" where
  "end_deep_copy t s = end_frame t s"

definition State_allocate ::
  "Space \<Rightarrow> string \<Rightarrow> 64 word \<Rightarrow> 64 word \<Rightarrow> State \<Rightarrow> error + State" where
  "State_allocate space nm p sz s =
     (case Allocations_allocate nm p sz (stack_frame s) (current_allocations s space) of
        Inl e \<Rightarrow> Inl e
      | Inr cur \<Rightarrow>
          Inr (s\<lparr>current_allocations := (current_allocations s)(space := cur),
                 hwm_allocations :=
                   (if total_size cur > total_size (hwm_allocations s space)
                    then (hwm_allocations s)(space := cur)
                    else hwm_allocations s)\<rparr>))"

definition State_deallocate ::
  "Space \<Rightarrow> string \<Rightarrow> 64 word \<Rightarrow> 64 word \<Rightarrow> State \<Rightarrow> error + State" where
  "State_deallocate space nm p sz s =
     (case Allocations_deallocate nm p sz (stack_frame s) (current_allocations s space) of
        Inl e \<Rightarrow> Inl e
      | Inr cur \<Rightarrow> Inr (s\<lparr>current_allocations := (current_allocations s)(space := cur)\<rparr>))"

text \<open>
  The destructor up to the inversion: the check that every frame has ended, the end of the
  root frame, and the two trees that go into the reduction.
\<close>

definition State_finish :: "Now \<Rightarrow> State \<Rightarrow> error + (StackNode \<times> StackNode)" where
  "State_finish end_time s =
     (if stack_frame s \<noteq> Some [] then
        (case get_full_name (stack_root s) (stack_frame s) of
           Inl e \<Rightarrow> Inl e
         | Inr full_name \<Rightarrow>
             Inl (Abort (''Program ended before '' @ quoted full_name @ '' ended'' @ [CHR 0x0A])))
      else
        (let rt = StackNode_end end_time (stack_root s)
         in Inr (rt, invert rt)))"

subsection \<open>Sequences of allocation events\<close>

text \<open>
  The allocation events of a session, the states after each of them, the sum of the sizes
  of the live records of a ledger as a number, and the rule that the events respect: no
  allocation of a live \<open>(size, address)\<close> key, no deallocation of a key that is not live.
\<close>

datatype event =
    Allocate Space string "64 word" "64 word"
  | Deallocate Space string "64 word" "64 word"

fun State_event :: "event \<Rightarrow> State \<Rightarrow> error + State" where
  "State_event (Allocate space nm p sz) s = State_allocate space nm p sz s"
| "State_event (Deallocate space nm p sz) s = State_deallocate space nm p sz s"

fun run_events :: "State \<Rightarrow> event list \<Rightarrow> error + State list" where
  "run_events s [] = Inr []"
| "run_events s (e # es) =
     (case State_event e s of
        Inl err \<Rightarrow> Inl err
      | Inr s' \<Rightarrow> (case run_events s' es of Inl err \<Rightarrow> Inl err | Inr tr \<Rightarrow> Inr (s' # tr)))"

definition live_bytes :: "Allocations \<Rightarrow> nat" where
  "live_bytes a = sum_list (map (\<lambda>r. unat (alloc_size r)) (alloc_set a))"

type_synonym alloc_key = "64 word \<times> 64 word"

definition alloc_key :: "Allocation \<Rightarrow> alloc_key" where
  "alloc_key r = (alloc_size r, alloc_ptr r)"

fun obeys :: "(Space \<Rightarrow> alloc_key set) \<Rightarrow> event list \<Rightarrow> bool" where
  "obeys live [] = True"
| "obeys live (Allocate space nm p sz # es) =
     ((sz, p) \<notin> live space \<and> obeys (live(space := insert (sz, p) (live space))) es)"
| "obeys live (Deallocate space nm p sz # es) =
     ((sz, p) \<in> live space \<and> obeys (live(space := live space - {(sz, p)})) es)"

text \<open>
  What the ledger keeps between events, and what one event does to the totals and to the
  snapshot.
\<close>

definition ledger_inv :: "Allocations \<Rightarrow> bool" where
  "ledger_inv a \<longleftrightarrow>
     sorted_wrt Allocation_less (alloc_set a) \<and>
     total_size a = sum_list (map alloc_size (alloc_set a))"

definition live_keys :: "Allocations \<Rightarrow> alloc_key set" where
  "live_keys a = alloc_key ` set (alloc_set a)"

definition event_step :: "event \<Rightarrow> State \<Rightarrow> State \<Rightarrow> bool" where
  "event_step e s s' =
     (case e of
        Allocate space nm p sz \<Rightarrow>
          (\<exists>a'. current_allocations s' = (current_allocations s)(space := a') \<and>
             total_size a' = total_size (current_allocations s space) + sz \<and>
             hwm_allocations s' =
               (if total_size a' > total_size (hwm_allocations s space)
                then (hwm_allocations s)(space := a') else hwm_allocations s))
      | Deallocate space nm p sz \<Rightarrow>
          (\<exists>a'. current_allocations s' = (current_allocations s)(space := a') \<and>
             total_size a' = total_size (current_allocations s space) - sz \<and>
             live_bytes a' + unat sz = live_bytes (current_allocations s space) \<and>
             hwm_allocations s' = hwm_allocations s))"

definition state_inv :: "(Space \<Rightarrow> alloc_key set) \<Rightarrow> State \<Rightarrow> bool" where
  "state_inv live s \<longleftrightarrow>
     (\<forall>space. ledger_inv (current_allocations s space) \<and>
              live space = live_keys (current_allocations s space))"

subsection \<open>Example inputs\<close>

text \<open>A session at tick 5 inside the kernel \<open>A\<close>, which began at that tick.\<close>

definition example_state :: State where
  "example_state =
     \<lparr>stack_root = StackNode [] STACK_REGION
                     [StackNode ''A'' STACK_FOR [] 0 None None 1 5] 0 None None 1 0,
      stack_frame = Some [(STACK_FOR, ''A'')],
      current_allocations = (\<lambda>space. Allocations_init),
      hwm_allocations = (\<lambda>space. Allocations_init)\<rparr>"

text \<open>The tree with the frame \<open>A\<close> after two more frames were created.\<close>

definition example_grown :: StackNode where
  "example_grown =
     StackNode [] STACK_REGION
       [StackNode_new ''0'' STACK_FOR,
        StackNode ''A'' STACK_FOR [StackNode_new ''C'' STACK_REGION] 0 None None 0 0]
       0 None None 0 0"

text \<open>A ledger with two live records.\<close>

definition example_ledger :: Allocations where
  "example_ledger =
     \<lparr>total_size = 1200,
      alloc_set = [\<lparr>alloc_name = ''buf1'', alloc_ptr = 4096, alloc_size = 1000,
                    alloc_frame = Some []\<rparr>,
                   \<lparr>alloc_name = ''buf2'', alloc_ptr = 8192, alloc_size = 200,
                    alloc_frame = Some []\<rparr>]\<rparr>"

text \<open>
  A tree in which the kernel \<open>A\<close> runs under the root and under the region \<open>R\<close>, with
  times in units of 1/1024 second.
\<close>

definition example_tree :: StackNode where
  "example_tree =
     StackNode [] STACK_REGION
       [StackNode ''A'' STACK_FOR [] (10 / 1024) None None 1 0,
        StackNode ''R'' STACK_REGION
          [StackNode ''A'' STACK_FOR [] (20 / 1024) None None 2 0] (30 / 1024) None None 1 0]
       (50 / 1024) None None 1 0"

text \<open>
  A session of 0.9 seconds with one kernel of 0.2 seconds: the doubles nearest to 0.9, 0.2
  and 0.7, and the double before the one nearest to 0.9.
\<close>

definition sec_0_9 :: real where
  "sec_0_9 = 8106479329266893 / 2 ^ 53"

definition sec_0_2 :: real where
  "sec_0_2 = 3602879701896397 / 2 ^ 54"

definition sec_0_7 :: real where
  "sec_0_7 = 3152519739159347 / 2 ^ 52"

definition sec_0_9_pred :: real where
  "sec_0_9_pred = 2026619832316723 / 2 ^ 51"

definition rounding_tree :: StackNode where
  "rounding_tree =
     StackNode [] STACK_REGION [StackNode ''A'' STACK_FOR [] sec_0_2 None None 1 0]
       sec_0_9 None None 1 0"

text \<open>The scenario of two buffers, and a sequence whose sizes exceed 64 bits in sum.\<close>

definition overflow_events :: "event list" where
  "overflow_events =
     [Allocate SPACE_HOST ''a'' 4096 9223372036854775808,
      Allocate SPACE_HOST ''b'' 8192 9223372036854775813,
      Deallocate SPACE_HOST ''a'' 4096 9223372036854775808]"

definition scenario_events :: "event list" where
  "scenario_events =
     [Allocate SPACE_HOST ''buf1'' 4096 1000,
      Allocate SPACE_HOST ''buf2'' 8192 200,
      Deallocate SPACE_HOST ''buf1'' 4096 1000]"

text \<open>
  Trees for the report: two kernels of 10 and 30 milliseconds in a session of 40
  milliseconds, with a region of 10 microseconds under the second (the times are the
  doubles nearest to 0.01, 0.03, 0.04 and 0.00001); two kernels that differ in kind only;
  and a session of no duration.
\<close>

definition ms_10 :: real where
  "ms_10 = 5764607523034235 / 2 ^ 59"

definition ms_30 :: real where
  "ms_30 = 1080863910568919 / 2 ^ 55"

definition ms_40 :: real where
  "ms_40 = 5764607523034235 / 2 ^ 57"

definition us_10 :: real where
  "us_10 = 5902958103587057 / 2 ^ 69"

definition tie_tree :: StackNode where
  "tie_tree =
     StackNode [] STACK_REGION
       [StackNode ''K'' STACK_FOR [] 2 (Some 2) (Some 2) 1 0,
        StackNode ''K'' STACK_REDUCE [] 2 (Some 2) (Some 2) 1 0]
       4 (Some 4) (Some 4) 1 0"

definition scenario_tree :: StackNode where
  "scenario_tree =
     StackNode [] STACK_REGION
       [StackNode ''A'' STACK_FOR [] ms_10 (Some ms_10) (Some ms_10) 1 0,
        StackNode ''B'' STACK_FOR
          [StackNode ''T'' STACK_REGION
             [StackNode ''U'' STACK_FOR [] us_10 (Some us_10) (Some us_10) 1 0]
             us_10 (Some us_10) (Some us_10) 1 0]
          ms_30 (Some ms_30) (Some ms_30) 1 0]
       ms_40 (Some ms_40) (Some ms_40) 1 0"

definition zero_tree :: StackNode where
  "zero_tree =
     StackNode [] STACK_REGION [StackNode ''A'' STACK_FOR [] 0 None None 1 0] 0 None None 1 0"

text \<open>The trees of two processes: rank 0 ran \<open>A\<close> and \<open>B\<close>, rank 1 ran \<open>A\<close> and \<open>C\<close>.\<close>

definition leaf :: "string \<Rightarrow> real \<Rightarrow> StackNode" where
  "leaf nm t = StackNode nm STACK_FOR [] t None None 1 0"

definition rank0_tree :: StackNode where
  "rank0_tree = StackNode [] STACK_REGION [leaf ''A'' 1, leaf ''B'' 2] 4 None None 1 0"

definition rank1_tree :: StackNode where
  "rank1_tree = StackNode [] STACK_REGION [leaf ''A'' 3, leaf ''C'' 2] 6 None None 1 0"

section \<open>Properties\<close>

subsection \<open>Rounding to \<open>double\<close>\<close>

text \<open>
  The exponent of \<open>ulp_exp\<close> is the one of the binade of its argument; rounding leaves
  the multiples of a power of two with at most 53 bits unchanged, and it does not cross a
  double.
\<close>

lemma rne_int [simp]: "rne (of_int n) = n"
  by (simp add: rne_def)

lemma rne_ge: "of_int n \<le> y \<Longrightarrow> n \<le> rne y"
proof -
  assume "of_int n \<le> y"
  then have "n \<le> \<lfloor>y\<rfloor>" by (simp add: le_floor_iff)
  then show ?thesis by (auto simp: rne_def Let_def)
qed

lemma rne_le: "y \<le> of_int n \<Longrightarrow> rne y \<le> n"
proof -
  assume y: "y \<le> of_int n"
  then have f: "\<lfloor>y\<rfloor> \<le> n" by linarith
  show ?thesis
  proof (cases "y = of_int \<lfloor>y\<rfloor>")
    case True
    then have "rne y = \<lfloor>y\<rfloor>" by (metis rne_int)
    with f show ?thesis by simp
  next
    case False
    with y have "\<lfloor>y\<rfloor> < n" by linarith
    then show ?thesis by (auto simp: rne_def Let_def)
  qed
qed

lemma ulp_exp_ge: "- 1074 \<le> ulp_exp x"
  by (simp add: ulp_exp_def)

lemma bitlen_upper: "0 \<le> n \<Longrightarrow> n < 2 ^ nat (bitlen n)"
  using bitlen_bounds [of n] by (cases "n = 0") simp_all

lemma floor_bitlen_upper:
  fixes z :: real
  assumes "0 \<le> z"
  shows "z < 2 ^ nat (bitlen \<lfloor>z\<rfloor>)"
proof -
  from assms have "0 \<le> \<lfloor>z\<rfloor>" by simp
  from bitlen_upper [OF this] have "\<lfloor>z\<rfloor> + 1 \<le> 2 ^ nat (bitlen \<lfloor>z\<rfloor>)" by simp
  then have "real_of_int (\<lfloor>z\<rfloor> + 1) \<le> real_of_int (2 ^ nat (bitlen \<lfloor>z\<rfloor>))"
    by (rule of_int_le_iff [THEN iffD2])
  then have "real_of_int \<lfloor>z\<rfloor> + 1 \<le> 2 ^ nat (bitlen \<lfloor>z\<rfloor>)" by simp
  moreover have "z < real_of_int \<lfloor>z\<rfloor> + 1" by linarith
  ultimately show ?thesis by (rule less_le_trans [rotated])
qed

lemma scaled_upper:
  fixes x :: real
  shows "\<bar>x\<bar> * 2 ^ 1074 < 2 ^ nat (bitlen \<lfloor>\<bar>x\<bar> * 2 ^ 1074\<rfloor>)"
  by (rule floor_bitlen_upper) simp

lemma powi_less_cancel: "(2::real) powi a < 2 powi b \<Longrightarrow> a < b"
  using power_int_increasing [of b a "2::real"] by (cases "a < b") simp_all

lemma powi_le_cancel: "(2::real) powi a \<le> 2 powi b \<Longrightarrow> a \<le> b"
  using power_int_strict_increasing [of b a "2::real"] by (cases "a \<le> b") simp_all

lemma ulp_exp_upper: "\<bar>x\<bar> < 2 powi (ulp_exp x + 53)"
proof -
  let ?z = "\<bar>x\<bar> * 2 ^ 1074"
  let ?b = "bitlen \<lfloor>?z\<rfloor>"
  have b: "0 \<le> ?b" by (rule bitlen_nonneg)
  have "?z < 2 ^ nat ?b" by (rule scaled_upper)
  also have "\<dots> = 2 powi ?b" using b by (simp add: power_int_def)
  finally have "\<bar>x\<bar> < 2 powi ?b / 2 ^ 1074" by (simp add: field_simps)
  also have "\<dots> = 2 powi (?b - 1074)" by (simp add: power_int_diff)
  also have "\<dots> \<le> 2 powi (ulp_exp x + 53)"
    by (rule power_int_increasing) (simp_all add: ulp_exp_def)
  finally show ?thesis .
qed

lemma ulp_exp_lower:
  assumes "- 1074 < ulp_exp x"
  shows "2 powi (ulp_exp x + 52) \<le> \<bar>x\<bar>"
proof -
  let ?z = "\<bar>x\<bar> * 2 ^ 1074"
  let ?b = "bitlen \<lfloor>?z\<rfloor>"
  from assms have e: "ulp_exp x = ?b - 1127" and b: "53 < ?b"
    by (simp_all add: ulp_exp_def max_def split: if_splits)
  then have pos: "0 < \<lfloor>?z\<rfloor>" using bitlen_eq_zero_iff [of "\<lfloor>?z\<rfloor>"] by linarith
  from bitlen_bounds [OF pos] have "2 ^ nat (?b - 1) \<le> \<lfloor>?z\<rfloor>" ..
  then have "real_of_int (2 ^ nat (?b - 1)) \<le> real_of_int \<lfloor>?z\<rfloor>"
    by (rule of_int_le_iff [THEN iffD2])
  also have "\<dots> \<le> ?z" by simp
  finally have "2 ^ nat (?b - 1) \<le> ?z" by simp
  moreover have "(2::real) ^ nat (?b - 1) = 2 powi (?b - 1)" using b by (simp add: power_int_def)
  ultimately have "2 powi (?b - 1) / 2 ^ 1074 \<le> \<bar>x\<bar>" by (simp add: field_simps)
  moreover have "(2::real) powi (?b - 1) / 2 ^ 1074 = 2 powi (?b - 1 - 1074)"
    by (simp add: power_int_diff)
  ultimately show ?thesis by (simp add: e)
qed

lemma bitlen_mono: "a \<le> b \<Longrightarrow> bitlen a \<le> bitlen b"
  by (simp add: bitlen_def floorlog_mono)

lemma ulp_exp_mono: "\<bar>x\<bar> \<le> \<bar>y\<bar> \<Longrightarrow> ulp_exp x \<le> ulp_exp y"
proof -
  assume "\<bar>x\<bar> \<le> \<bar>y\<bar>"
  then have "\<lfloor>\<bar>x\<bar> * 2 ^ 1074\<rfloor> \<le> \<lfloor>\<bar>y\<bar> * 2 ^ 1074\<rfloor>" by (intro floor_mono) simp
  from bitlen_mono [OF this] show ?thesis by (simp add: ulp_exp_def)
qed

lemma ulp_exp_eq:
  assumes "2 ^ 52 \<le> \<bar>x\<bar> / 2 powi e" and "\<bar>x\<bar> / 2 powi e < 2 ^ 53" and "- 1074 \<le> e"
  shows "ulp_exp x = e"
proof -
  have p: "(0::real) < 2 powi e" by simp
  from assms(1) p have lo: "2 powi (e + 52) \<le> \<bar>x\<bar>"
    by (simp add: power_int_add field_simps)
  from assms(2) p have hi: "\<bar>x\<bar> < 2 powi (e + 53)"
    by (simp add: power_int_add field_simps)
  from lo ulp_exp_upper [of x] have "(2::real) powi (e + 52) < 2 powi (ulp_exp x + 53)" by simp
  from powi_less_cancel [OF this] have 1: "e \<le> ulp_exp x" by simp
  show ?thesis
  proof (cases "- 1074 < ulp_exp x")
    case True
    from ulp_exp_lower [OF True] hi have "(2::real) powi (ulp_exp x + 52) < 2 powi (e + 53)" by simp
    from powi_less_cancel [OF this] have "ulp_exp x \<le> e" by simp
    with 1 show ?thesis by simp
  next
    case False
    with ulp_exp_ge [of x] have "ulp_exp x = - 1074" by simp
    with 1 assms(3) show ?thesis by simp
  qed
qed


lemma round_double_grid:
  assumes x: "x = of_int m * 2 powi j" and j: "- 1074 \<le> j" and m: "\<bar>m\<bar> < 2 ^ 53"
  shows "round_double x = x"
proof -
  define e where "e = ulp_exp x"
  have "e \<le> j"
  proof (cases "- 1074 < e")
    case True
    then have "2 powi (e + 52) \<le> \<bar>x\<bar>" unfolding e_def by (rule ulp_exp_lower)
    also have "\<bar>x\<bar> = real_of_int \<bar>m\<bar> * 2 powi j" by (simp add: x abs_mult)
    also have "\<dots> < 2 ^ 53 * 2 powi j"
    proof (rule mult_strict_right_mono)
      from m have "real_of_int \<bar>m\<bar> < real_of_int (2 ^ 53)" by (rule of_int_less_iff [THEN iffD2])
      then show "real_of_int \<bar>m\<bar> < 2 ^ 53" by simp
    qed simp
    also have "\<dots> = 2 powi (j + 53)" by (simp add: power_int_add)
    finally have "e + 52 < j + 53" by (rule powi_less_cancel)
    then show ?thesis by simp
  next
    case False
    with j show ?thesis by simp
  qed
  then obtain k where k: "j = e + int k" by (metis zle_iff_zadd)
  have "x / 2 powi e = real_of_int (m * 2 ^ k)"
    by (simp add: x k power_int_add)
  then have "rne (x / 2 powi e) = m * 2 ^ k" by (simp only: rne_int)
  then have "round_double x = real_of_int (m * 2 ^ k) * 2 powi e"
    by (simp add: round_double_def e_def)
  also have "\<dots> = x" by (simp add: x k power_int_add)
  finally show ?thesis .
qed

lemma round_double_0 [simp]: "round_double 0 = 0"
  using round_double_grid [of 0 0 0] by simp

lemma round_double_nonpos: "x \<le> 0 \<Longrightarrow> round_double x \<le> 0"
proof -
  assume "x \<le> 0"
  then have "x / 2 powi ulp_exp x \<le> real_of_int 0" by (simp add: divide_nonpos_pos)
  from rne_le [OF this] show ?thesis
    by (simp add: round_double_def mult_nonpos_nonneg)
qed

lemma round_double_nonneg: "0 \<le> x \<Longrightarrow> 0 \<le> round_double x"
proof -
  assume "0 \<le> x"
  then have "real_of_int 0 \<le> x / 2 powi ulp_exp x" by simp
  from rne_ge [OF this] show ?thesis
    by (simp add: round_double_def)
qed

lemma on_own_grid:
  assumes "round_double c = c"
  shows "c / 2 powi ulp_exp c = real_of_int (rne (c / 2 powi ulp_exp c))"
proof -
  from assms have "real_of_int (rne (c / 2 powi ulp_exp c)) * 2 powi ulp_exp c = c"
    by (simp add: round_double_def)
  then show ?thesis by (simp add: field_simps)
qed

lemma round_double_ge:
  assumes c: "round_double c = c" and pos: "0 < c" and le: "c \<le> x"
  shows "c \<le> round_double x"
proof -
  define e where "e = ulp_exp x"
  define ec where "ec = ulp_exp c"
  from pos le have "\<bar>c\<bar> \<le> \<bar>x\<bar>" by simp
  then have ee: "ec \<le> e" unfolding e_def ec_def by (rule ulp_exp_mono)
  have r: "round_double x = real_of_int (rne (x / 2 powi e)) * 2 powi e"
    by (simp add: round_double_def e_def)
  show ?thesis
  proof (cases "ec = e")
    case True
    define n where "n = rne (c / 2 powi e)"
    from on_own_grid [OF c] have cn: "c / 2 powi e = real_of_int n"
      by (simp add: n_def ec_def [symmetric] True)
    from le have "c / 2 powi e \<le> x / 2 powi e" by (simp add: divide_right_mono)
    then have "real_of_int n \<le> x / 2 powi e" by (simp add: cn)
    from rne_ge [OF this] have "real_of_int n \<le> real_of_int (rne (x / 2 powi e))" by simp
    then have "real_of_int n * 2 powi e \<le> real_of_int (rne (x / 2 powi e)) * 2 powi e"
      by (rule mult_right_mono) simp
    moreover from cn have "c = real_of_int n * 2 powi e" by (simp add: field_simps)
    ultimately show ?thesis by (simp add: r)
  next
    case False
    with ee have lt: "ec < e" by simp
    with ulp_exp_ge [of c] have "- 1074 < ulp_exp x" by (simp add: ec_def e_def)
    from ulp_exp_lower [OF this] have lo: "2 powi (e + 52) \<le> \<bar>x\<bar>" by (simp add: e_def)
    from pos le have "\<bar>x\<bar> = x" by simp
    with lo have "real_of_int (2 ^ 52) \<le> x / 2 powi e"
      by (simp add: power_int_add field_simps)
    from rne_ge [OF this] have "real_of_int (2 ^ 52) \<le> real_of_int (rne (x / 2 powi e))"
      by (simp only: of_int_le_iff)
    then have "real_of_int (2 ^ 52) * 2 powi e \<le> real_of_int (rne (x / 2 powi e)) * 2 powi e"
      by (rule mult_right_mono) simp
    then have "2 powi (e + 52) \<le> round_double x"
      by (simp add: r power_int_add mult.commute)
    moreover from ulp_exp_upper [of c] pos have "c < 2 powi (ec + 53)" by (simp add: ec_def)
    moreover have "(2::real) powi (ec + 53) \<le> 2 powi (e + 52)"
      by (rule power_int_increasing) (use lt in simp_all)
    ultimately show ?thesis by linarith
  qed
qed

lemma round_double_le:
  assumes c: "round_double c = c" and pos: "0 < c" and le: "x \<le> c"
  shows "round_double x \<le> c"
proof (cases "x \<le> 0")
  case True
  from round_double_nonpos [OF this] pos show ?thesis by simp
next
  case False
  define e where "e = ulp_exp x"
  define ec where "ec = ulp_exp c"
  define n where "n = rne (c / 2 powi ec)"
  from False le have "\<bar>x\<bar> \<le> \<bar>c\<bar>" by simp
  then have "e \<le> ec" unfolding e_def ec_def by (rule ulp_exp_mono)
  then obtain k where k: "ec = e + int k" by (metis zle_iff_zadd)
  from on_own_grid [OF c] have "c / 2 powi ec = real_of_int n" by (simp add: n_def ec_def)
  then have cn: "c = real_of_int n * 2 powi ec" by (simp add: field_simps)
  then have ce: "c / 2 powi e = real_of_int (n * 2 ^ k)" by (simp add: k power_int_add)
  from le have "x / 2 powi e \<le> c / 2 powi e" by (simp add: divide_right_mono)
  then have "x / 2 powi e \<le> real_of_int (n * 2 ^ k)" by (simp only: ce)
  from rne_le [OF this] have "real_of_int (rne (x / 2 powi e)) \<le> real_of_int (n * 2 ^ k)"
    by (simp only: of_int_le_iff)
  then have "real_of_int (rne (x / 2 powi e)) * 2 powi e \<le> real_of_int (n * 2 ^ k) * 2 powi e"
    by (rule mult_right_mono) simp
  also have "\<dots> = c" by (simp add: cn k power_int_add)
  finally show ?thesis by (simp add: round_double_def e_def)
qed

lemma round_double_eval:
  assumes "2 ^ 52 \<le> \<bar>x\<bar> / 2 powi e" and "\<bar>x\<bar> / 2 powi e < 2 ^ 53" and "- 1074 \<le> e"
  shows "round_double x = real_of_int (rne (x / 2 powi e)) * 2 powi e"
  by (simp add: round_double_def ulp_exp_eq [OF assms])

lemma dbl_round_cases:
  "dbl_round x =
     (if 2 ^ 1024 \<le> round_double x then PlusInf
      else if round_double x \<le> - (2 ^ 1024) then MinusInf else Finite (round_double x))"
  by (simp only: dbl_round_def Let_def)

lemma dbl_round_finite:
  assumes "round_double x = y" and "\<bar>y\<bar> < 2 ^ 1024"
  shows "dbl_round x = Finite y"
proof -
  define B :: real where "B = 2 ^ 1024"
  from assms(2) have "\<not> B \<le> y" "\<not> y \<le> - B" unfolding B_def by linarith+
  then show ?thesis
    unfolding dbl_round_cases assms(1) B_def [symmetric] by (simp only: if_False)
qed

lemma dbl_round_exact:
  "round_double x = x \<Longrightarrow> \<bar>x\<bar> < 2 ^ 1024 \<Longrightarrow> dbl_round x = Finite x"
  by (rule dbl_round_finite)

lemma dbl_round_ge:
  assumes "round_double c = c" and "0 < c" and "c \<le> x"
  shows "dbl_round x = PlusInf \<or> (\<exists>r. dbl_round x = Finite r \<and> c \<le> r)"
proof -
  define B :: real where "B = 2 ^ 1024"
  have "0 < B" by (simp add: B_def)
  with round_double_ge [OF assms] assms(2) have "\<not> round_double x \<le> - B" by linarith
  with round_double_ge [OF assms] show ?thesis
    unfolding dbl_round_cases B_def [symmetric] by (cases "B \<le> round_double x") simp_all
qed

lemma dbl_round_le:
  assumes "round_double c = c" and "0 < c" and "x \<le> c" and "c < 2 ^ 1024"
  shows "dbl_round x = MinusInf \<or> (\<exists>r. dbl_round x = Finite r \<and> r \<le> c)"
proof -
  define B :: real where "B = 2 ^ 1024"
  from round_double_le [OF assms(1-3)] assms(4) have "\<not> B \<le> round_double x"
    unfolding B_def by linarith
  with round_double_le [OF assms(1-3)] show ?thesis
    unfolding dbl_round_cases B_def [symmetric] by (cases "round_double x \<le> - B") simp_all
qed

subsection \<open>std::set on a strict weak order\<close>

lemma set_find_None: "set_find lt k xs = None \<longleftrightarrow> (\<forall>x \<in> set xs. \<not> equiv_by lt x k)"
  by (induction xs) auto

lemma set_find_Some: "set_find lt k xs = Some x \<Longrightarrow> x \<in> set xs \<and> equiv_by lt x k"
  by (induction xs) (auto split: if_splits)

lemma set_emplace_inserted:
  assumes "transp lt" and "sorted_wrt lt xs"
  shows "snd (set_emplace lt v xs) \<longleftrightarrow> (\<forall>x \<in> set xs. \<not> equiv_by lt x v)"
  using assms(2)
proof (induction xs)
  case Nil
  show ?case by simp
next
  case (Cons x xs)
  then have sx: "\<forall>y \<in> set xs. lt x y" and s: "sorted_wrt lt xs" by simp_all
  show ?case
  proof (cases "lt v x")
    case True
    with sx assms(1) have "\<forall>y \<in> set xs. lt v y" by (meson transpD)
    with True show ?thesis by (auto simp: equiv_by_def)
  next
    case False
    then show ?thesis using Cons.IH [OF s]
      by (auto simp: equiv_by_def split: prod.splits)
  qed
qed

lemma set_emplace_sum:
  "snd (set_emplace lt v xs) \<Longrightarrow>
   sum_list (map f (fst (set_emplace lt v xs))) = f v + sum_list (map f xs)"
  for f :: "'a \<Rightarrow> 'b::comm_monoid_add"
  by (induction xs) (auto split: prod.splits if_splits simp: add.left_commute)

lemma set_emplace_set:
  "snd (set_emplace lt v xs) \<Longrightarrow> set (fst (set_emplace lt v xs)) = insert v (set xs)"
  by (induction xs) (auto split: prod.splits if_splits)

lemma set_emplace_sorted:
  assumes "transp lt" and "sorted_wrt lt xs" and "snd (set_emplace lt v xs)"
  shows "sorted_wrt lt (fst (set_emplace lt v xs))"
  using assms(2,3)
proof (induction xs)
  case Nil
  show ?case by simp
next
  case (Cons x xs)
  then have sx: "\<forall>y \<in> set xs. lt x y" and s: "sorted_wrt lt xs" by simp_all
  show ?case
  proof (cases "lt v x")
    case True
    with sx assms(1) have "\<forall>y \<in> set xs. lt v y" by (meson transpD)
    with True Cons.prems show ?thesis by simp
  next
    case False
    with Cons.prems have lt: "lt x v" and ins: "snd (set_emplace lt v xs)"
      by (auto split: if_splits prod.splits)
    from Cons.IH [OF s ins] set_emplace_set [OF ins] sx lt False show ?thesis
      by (auto split: prod.splits)
  qed
qed

lemma set_erase_sum:
  "set_find lt k xs = Some it \<Longrightarrow>
   sum_list (map f (set_erase lt k xs)) + f it = sum_list (map f xs)"
  for f :: "'a \<Rightarrow> 'b::comm_monoid_add"
  by (induction xs) (auto split: if_splits simp: add.commute add.left_commute add.assoc)

lemma set_erase_sorted: "sorted_wrt lt xs \<Longrightarrow> sorted_wrt lt (set_erase lt k xs)"
proof (induction xs)
  case Nil
  show ?case by simp
next
  case (Cons x xs)
  have sub: "set (set_erase lt k ys) \<subseteq> set ys" for ys
    by (induction ys) auto
  from Cons sub [of xs] show ?case by auto
qed

lemma set_erase_set:
  assumes "irreflp lt" and "sorted_wrt lt xs" and "set_find lt k xs = Some it"
  shows "set (set_erase lt k xs) = set xs - {it}"
  using assms(2,3)
proof (induction xs)
  case Nil
  then show ?case by simp
next
  case (Cons x xs)
  from Cons.prems(1) assms(1) have "x \<notin> set xs"
    by (auto simp: irreflp_def)
  with Cons show ?case
    by (auto split: if_splits dest: set_find_Some)
qed

subsection \<open>Frames and pointers\<close>

lemma int_of_kind_inj: "int_of_kind x = int_of_kind y \<longleftrightarrow> x = y"
  by (cases x; cases y) simp_all

lemma StackNode_equiv: "equiv_by StackNode_less a b \<longleftrightarrow> key_of a = key_of b"
proof (cases "kind a = kind b")
  case True
  have "(\<not> name a < name b \<and> \<not> name b < name a) = (name a = name b)"
    by (rule iffI) (simp_all add: not_less order_antisym)
  with True show ?thesis
    by (simp add: equiv_by_def StackNode_less_def key_of_def)
next
  case False
  then have "int_of_kind (kind a) \<noteq> int_of_kind (kind b)"
    by (simp add: int_of_kind_inj)
  then have "int_of_kind (kind a) < int_of_kind (kind b) \<or> int_of_kind (kind b) < int_of_kind (kind a)"
    by (rule linorder_neqE) simp_all
  with False show ?thesis
    by (auto simp: equiv_by_def StackNode_less_def key_of_def)
qed

lemma set_find_StackNode: "set_find StackNode_less v cs = find_child (key_of v) cs"
  by (induction cs) (auto simp: StackNode_equiv)

lemma key_of_new [simp]: "key_of (StackNode_new nm kd) = (kd, nm)"
  by (simp add: key_of_def StackNode_new_def)

lemma find_child_mem: "find_child k cs = Some c \<Longrightarrow> c \<in> set cs"
  by (induction cs) (auto split: if_splits)

lemma find_child_key: "find_child k cs = Some c \<Longrightarrow> key_of c = k"
  by (induction cs) (auto split: if_splits)

lemma get_child_key [simp]: "snd (get_child nm kd n) = (kd, nm)"
  by (auto simp: get_child_def set_find_StackNode Let_def dest: find_child_key split: option.splits)

lemma deref_append:
  "deref rt (ks @ [k]) =
     (case deref rt ks of None \<Rightarrow> None | Some n \<Rightarrow> find_child k (children n))"
  by (induction ks arbitrary: rt) (auto split: option.splits)

lemma deref_prefix: "deref rt (ks @ ks') = Some n \<Longrightarrow> \<exists>m. deref rt ks = Some m"
  by (induction ks arbitrary: rt) (auto split: option.splits)

lemma deref_butlast: "deref rt p = Some n \<Longrightarrow> p \<noteq> [] \<Longrightarrow> \<exists>m. deref rt (butlast p) = Some m"
  using deref_prefix [of rt "butlast p" "[last p]" n] by simp

lemma get_full_name_loop_valid:
  "deref rt p = Some n \<Longrightarrow> \<exists>full. get_full_name_loop rt (Some p) acc = Inr full"
proof (induction "length p" arbitrary: p n acc)
  case 0
  then have "p = []" by simp
  with 0 show ?case by (simp add: get_full_name_loop.simps)
next
  case (Suc l)
  then obtain k ks where p: "p = k # ks" by (cases p) auto
  from deref_butlast [OF Suc.prems] p obtain m where m: "deref rt (butlast p) = Some m" by blast
  have l: "l = length (butlast p)" using Suc.hyps(2) by simp
  have pp: "parent_ptr p = Some (butlast p)" using p by simp
  from Suc.hyps(1) [OF l m] Suc.prems
  show ?case by (subst get_full_name_loop.simps) (simp add: pp)
qed

lemma get_full_name_valid:
  "deref rt p = Some n \<Longrightarrow> \<exists>full. get_full_name rt (Some p) = Inr full"
  by (simp add: get_full_name_def get_full_name_loop_valid)

text \<open>
  C4. The full name of the frame reached by \<open>get_child("A")\<close> from the root and then
  \<open>get_child("B")\<close> from the result: the loop of \<open>get_full_name\<close> appends a
  \<open>'/'\<close> after every name it adds, the frame's own included, so the name it returns
  is \<open>A/B/\<close>, not \<open>A/B\<close>. The unnamed root adds nothing.
\<close>

theorem full_name_of_nested_child:
  "(case ptr_get_child (StackNode_new [] STACK_REGION) (Some []) ''A'' kA of
      Inr (r1, a) \<Rightarrow>
        (case ptr_get_child r1 a ''B'' kB of
           Inr (r2, b) \<Rightarrow> get_full_name r2 b)) = Inr ''A/B/''"
  by (cases kA; cases kB;
      simp add: ptr_get_child_def get_child_def StackNode_new_def key_of_def
        get_full_name_def get_full_name_loop.simps equiv_by_def StackNode_less_def)

text \<open>
  C5. In a state whose cursor points to a frame of the tree, \<open>end_kernel\<close> with an
  identifier that is not the cursor writes the diagnostic with the full name of the cursor's
  frame and aborts; with the identifier of the cursor it ends that frame and moves the
  cursor to the parent.
\<close>

theorem end_kernel_checks_cursor:
  assumes "stack_frame s = Some p" and "deref (stack_root s) p = Some n"
  shows "(kernid \<noteq> Some p \<longrightarrow>
            (\<exists>full. get_full_name (stack_root s) (stack_frame s) = Inr full \<and>
               end_kernel kernid t s =
                 Inl (Abort (''Expected '' @ quoted full @
                             '' to end, got different kernel ID'' @ [CHR 0x0A])))) \<and>
         (kernid = Some p \<longrightarrow>
            end_kernel kernid t s =
              Inr (s\<lparr>stack_root := modify (StackNode_end t) p (stack_root s),
                     stack_frame := parent_ptr p\<rparr>))"
proof -
  from get_full_name_valid [OF assms(2)] obtain full
    where "get_full_name (stack_root s) (Some p) = Inr full" by blast
  then show ?thesis using assms
    by (auto simp: end_kernel_def end_frame_def)
qed

theorem end_kernel_checks_cursor_witness:
  "stack_frame (example_state) = Some [(STACK_FOR, ''A'')] \<and>
   deref (stack_root example_state) [(STACK_FOR, ''A'')] =
     Some (StackNode ''A'' STACK_FOR [] 0 None None 1 5) \<and>
   end_kernel (Some []) 9 example_state =
     Inl (Abort (''Expected '' @ quoted ''A/'' @ '' to end, got different kernel ID'' @ [CHR 0x0A])) \<and>
   end_kernel (Some [(STACK_FOR, ''A'')]) 9 example_state =
     Inr (example_state\<lparr>stack_root :=
            modify (StackNode_end 9) [(STACK_FOR, ''A'')] (stack_root example_state),
          stack_frame := Some []\<rparr>)"
proof -
  have h1: "stack_frame example_state = Some [(STACK_FOR, ''A'')]"
    by (simp add: example_state_def)
  have h2: "deref (stack_root example_state) [(STACK_FOR, ''A'')] =
      Some (StackNode ''A'' STACK_FOR [] 0 None None 1 5)"
    by (simp add: example_state_def key_of_def)
  have fn: "get_full_name (stack_root example_state) (stack_frame example_state) = Inr ''A/''"
    by (simp add: example_state_def get_full_name_def get_full_name_loop.simps key_of_def)
  from end_kernel_checks_cursor [OF h1 h2, of "Some []" 9] fn
  have a: "end_kernel (Some []) 9 example_state =
     Inl (Abort (''Expected '' @ quoted ''A/'' @ '' to end, got different kernel ID'' @ [CHR 0x0A]))"
    by simp
  from end_kernel_checks_cursor [OF h1 h2, of "Some [(STACK_FOR, ''A'')]" 9]
  have b: "end_kernel (Some [(STACK_FOR, ''A'')]) 9 example_state =
     Inr (example_state\<lparr>stack_root :=
            modify (StackNode_end 9) [(STACK_FOR, ''A'')] (stack_root example_state),
          stack_frame := Some []\<rparr>)"
    by simp
  from h1 h2 a b show ?thesis by blast
qed

text \<open>
  C6, as stated, fails: \<open>pop_region\<close> with the cursor at the root returns normally.
  Right after the constructor it ends the root frame and leaves the cursor null.
\<close>

theorem pop_region_at_root_returns:
  "pop_region 1 (State_init 0) =
     Inr ((State_init 0)\<lparr>stack_root := StackNode_end 1 (stack_root (State_init 0)),
                         stack_frame := None\<rparr>)"
  by (simp add: pop_region_def end_frame_def State_init_def)

text \<open>
  C6, amended. \<open>pop_region\<close> has no check of its own: with the cursor at the root it ends
  the root frame and returns with a null cursor. The violation stops the process only
  afterwards, when the cursor is used: \<open>begin_frame\<close>, \<open>end_frame\<close> and the check of
  the destructor all go through the null pointer.
\<close>

theorem pop_region_at_root:
  assumes "stack_frame s = Some []"
  shows "\<exists>s'. pop_region t s = Inr s' \<and>
           stack_root s' = StackNode_end t (stack_root s) \<and> stack_frame s' = None \<and>
           begin_frame nm kd t' s' = Inl InvalidPointer \<and>
           end_frame t' s' = Inl InvalidPointer \<and>
           State_finish t' s' = Inl InvalidPointer"
  using assms
  by (simp add: pop_region_def end_frame_def begin_frame_def ptr_get_child_def
      State_finish_def get_full_name_def)

theorem pop_region_at_root_witness:
  "stack_frame (State_init 0) = Some [] \<and>
   (\<exists>s'. pop_region 1 (State_init 0) = Inr s' \<and>
      stack_root s' = StackNode_end 1 (stack_root (State_init 0)) \<and> stack_frame s' = None \<and>
      begin_frame ''A'' STACK_FOR 2 s' = Inl InvalidPointer \<and>
      end_frame 2 s' = Inl InvalidPointer \<and>
      State_finish 2 s' = Inl InvalidPointer)"
proof -
  have h: "stack_frame (State_init 0) = Some []" by (simp add: State_init_def)
  from h pop_region_at_root [OF h, of 1 "''A''" STACK_FOR 2] show ?thesis by blast
qed

lemma set_children_fields [simp]:
  "frame_fields (set_children cs n) = frame_fields n"
  "key_of (set_children cs n) = key_of n"
  "children (set_children cs n) = cs"
  by (cases n; simp add: frame_fields_def key_of_def)+

lemma get_child_fields [simp]:
  "frame_fields (fst (get_child nm kd n)) = frame_fields n"
  "key_of (fst (get_child nm kd n)) = key_of n"
  by (simp_all add: get_child_def Let_def split: option.splits)

lemma modify_key:
  "(\<And>n. key_of (f n) = key_of n) \<Longrightarrow> key_of (modify f p n) = key_of n"
  by (cases p) simp_all

lemma modify_fields:
  "(\<And>n. frame_fields (f n) = frame_fields n) \<Longrightarrow> frame_fields (modify f p n) = frame_fields n"
  by (cases p) simp_all

lemma find_modify_child:
  "(\<And>c. key_of (g c) = key_of c) \<Longrightarrow>
   find_child k (modify_child k' g cs) =
     (if k = k' then map_option g (find_child k cs) else find_child k cs)"
  by (induction cs) auto

lemma find_child_emplace:
  "key_of v \<noteq> k \<Longrightarrow> find_child k (fst (set_emplace lt v cs)) = find_child k cs"
  by (induction cs) (auto split: prod.splits)

lemma find_child_emplaced:
  "find_child (key_of v) cs = None \<Longrightarrow>
   find_child (key_of v) (fst (set_emplace StackNode_less v cs)) = Some v"
proof (induction cs)
  case Nil
  then show ?case by simp
next
  case (Cons c cs)
  then have ne: "key_of c \<noteq> key_of v" and rest: "find_child (key_of v) cs = None"
    by (auto split: if_splits)
  from ne have "\<not> equiv_by StackNode_less c v" by (simp add: StackNode_equiv)
  then have "StackNode_less v c \<or> StackNode_less c v" by (auto simp: equiv_by_def)
  with Cons.IH [OF rest] ne show ?case by (auto split: prod.splits)
qed

lemma get_child_found:
  "find_child (kd, nm) (children n) = Some c \<Longrightarrow> get_child nm kd n = (n, (kd, nm))"
  by (auto simp: get_child_def Let_def set_find_StackNode dest: find_child_key)

lemma get_child_has_child:
  "\<exists>c. find_child (kd, nm) (children (fst (get_child nm kd n))) = Some c"
proof (cases "find_child (kd, nm) (children n)")
  case None
  then show ?thesis
    using find_child_emplaced [of "StackNode_new nm kd" "children n"]
    by (simp add: get_child_def Let_def set_find_StackNode)
next
  case (Some c)
  then show ?thesis by (simp add: get_child_found)
qed

lemma extends_refl: "extends rt rt"
  by (simp add: extends_def)

lemma extends_trans: "extends a b \<Longrightarrow> extends b c \<Longrightarrow> extends a c"
  unfolding extends_def by (metis)

lemma extends_get_child: "extends n (fst (get_child nm kd n))"
  unfolding extends_def
proof (intro allI impI)
  fix q m
  assume q: "deref n q = Some m"
  show "\<exists>m'. deref (fst (get_child nm kd n)) q = Some m' \<and> frame_fields m' = frame_fields m"
  proof (cases q)
    case Nil
    with q show ?thesis by simp
  next
    case (Cons k ks)
    with q obtain c where c: "find_child k (children n) = Some c" "deref c ks = Some m"
      by (auto split: option.splits)
    show ?thesis
    proof (cases "find_child (kd, nm) (children n)")
      case None
      with c have "k \<noteq> (kd, nm)" by auto
      then have "find_child k (fst (set_emplace StackNode_less (StackNode_new nm kd) (children n)))
                 = find_child k (children n)"
        by (intro find_child_emplace) simp
      with None c Cons show ?thesis
        by (simp add: get_child_def Let_def set_find_StackNode)
    next
      case (Some c')
      with q show ?thesis by (simp add: get_child_found)
    qed
  qed
qed

lemma extends_modify:
  assumes "\<And>n. extends n (f n)" and "\<And>n. key_of (f n) = key_of n"
  shows "extends rt (modify f p rt)"
proof (induction p arbitrary: rt)
  case Nil
  show ?case by (simp add: assms(1))
next
  case (Cons k ks)
  show ?case unfolding extends_def
  proof (intro allI impI)
    fix q m
    assume q: "deref rt q = Some m"
    let ?g = "\<lambda>c. modify f ks c"
    have kg: "\<And>c. key_of (?g c) = key_of c" by (rule modify_key) (rule assms(2))
    show "\<exists>m'. deref (modify f (k # ks) rt) q = Some m' \<and> frame_fields m' = frame_fields m"
    proof (cases q)
      case Nil
      with q show ?thesis by simp
    next
      case (Cons k2 q2)
      with q obtain c where c: "find_child k2 (children rt) = Some c" "deref c q2 = Some m"
        by (auto split: option.splits)
      show ?thesis
      proof (cases "k2 = k")
        case True
        from Cons.IH [of c] c(2) obtain m' where
          "deref (modify f ks c) q2 = Some m'" "frame_fields m' = frame_fields m"
          unfolding extends_def by blast
        with True c \<open>q = k2 # q2\<close> show ?thesis
          by (simp add: find_modify_child [of ?g, OF kg])
      next
        case False
        with c \<open>q = k2 # q2\<close> show ?thesis
          by (simp add: find_modify_child [of ?g, OF kg])
      qed
    qed
  qed
qed

lemma deref_modify:
  assumes "\<And>n. key_of (f n) = key_of n"
  shows "deref (modify f p rt) p = map_option f (deref rt p)"
proof (induction p arbitrary: rt)
  case Nil
  show ?case by simp
next
  case (Cons k ks)
  have kg: "\<And>c. key_of (modify f ks c) = key_of c" by (rule modify_key) (rule assms)
  show ?case
    by (simp add: find_modify_child [of "\<lambda>c. modify f ks c", OF kg] Cons.IH
        split: option.splits)
qed

lemma modify_child_id:
  "find_child k cs = Some c \<Longrightarrow> g c = c \<Longrightarrow> modify_child k g cs = cs"
  by (induction cs) (auto split: if_splits)

lemma set_children_id [simp]: "set_children (children n) n = n"
  by (cases n) simp

lemma modify_id: "deref rt p = Some n \<Longrightarrow> f n = n \<Longrightarrow> modify f p rt = rt"
proof (induction p arbitrary: rt)
  case Nil
  then show ?case by simp
next
  case (Cons k ks)
  then obtain c where c: "find_child k (children rt) = Some c" "deref c ks = Some n"
    by (auto split: option.splits)
  from Cons.IH [OF c(2) Cons.prems(2)] have "modify f ks c = c" .
  with c(1) show ?case by (simp add: modify_child_id)
qed

lemma extends_ptr_get_child:
  "ptr_get_child rt p nm kd = Inr (rt', child) \<Longrightarrow> extends rt rt'"
  by (auto simp: ptr_get_child_def extends_modify extends_get_child
      split: option.splits)

lemma extends_get_child_calls:
  "get_child_calls rt calls = Inr rt' \<Longrightarrow> extends rt rt'"
proof (induction calls arbitrary: rt)
  case Nil
  then show ?case by (simp add: extends_refl)
next
  case (Cons call calls)
  obtain p nm kd where call: "call = (p, nm, kd)" by (cases call)
  with Cons.prems obtain rt1 child where
    s: "ptr_get_child rt p nm kd = Inr (rt1, child)" "get_child_calls rt1 calls = Inr rt'"
    by (auto split: sum.splits)
  from extends_ptr_get_child [OF s(1)] Cons.IH [OF s(2)] show ?case
    by (rule extends_trans)
qed

lemma ptr_get_child_existing:
  assumes "deref rt (p @ [(kd, nm)]) = Some c"
  shows "ptr_get_child rt (Some p) nm kd = Inr (rt, Some (p @ [(kd, nm)]))"
proof -
  from assms obtain n where n: "deref rt p = Some n" "find_child (kd, nm) (children n) = Some c"
    by (auto simp: deref_append split: option.splits)
  from get_child_found [OF n(2)] have g: "get_child nm kd n = (n, (kd, nm))" .
  then have "modify (\<lambda>n. fst (get_child nm kd n)) p rt = rt"
    using modify_id [OF n(1), of "\<lambda>n. fst (get_child nm kd n)"] by simp
  with n(1) show ?thesis by (simp add: ptr_get_child_def)
qed

text \<open>
  C8. When \<open>get_child\<close> through a pointer returns a child, the same call again returns the
  same pointer and leaves the tree as it is; and after any further \<open>get_child\<close> calls,
  through any pointers of the tree, the call still returns that pointer, which still
  designates a frame with the same name, kind, times and call count.
\<close>

theorem get_child_idempotent_stable:
  assumes "ptr_get_child rt parent nm kd = Inr (rt1, f1)"
  shows "ptr_get_child rt1 parent nm kd = Inr (rt1, f1) \<and>
         (\<forall>calls rt2. get_child_calls rt1 calls = Inr rt2 \<longrightarrow>
            ptr_get_child rt2 parent nm kd = Inr (rt2, f1) \<and>
            (\<exists>n1 n2. deref_ptr rt1 f1 = Some n1 \<and> deref_ptr rt2 f1 = Some n2 \<and>
                     frame_fields n2 = frame_fields n1 \<and> name n1 = nm \<and> kind n1 = kd))"
proof -
  let ?f = "\<lambda>n. fst (get_child nm kd n)"
  from assms obtain p n where p: "parent = Some p" "deref rt p = Some n"
    and rt1: "rt1 = modify ?f p rt" and f1: "f1 = Some (p @ [(kd, nm)])"
    by (auto simp: ptr_get_child_def split: option.splits)
  have "deref rt1 p = Some (?f n)"
    unfolding rt1 using p(2) by (simp add: deref_modify)
  moreover obtain c where c: "find_child (kd, nm) (children (?f n)) = Some c"
    using get_child_has_child by blast
  ultimately have d1: "deref rt1 (p @ [(kd, nm)]) = Some c"
    by (simp add: deref_append)
  from find_child_key [OF c] have ck: "name c = nm" "kind c = kd"
    by (simp_all add: key_of_def)
  have first: "ptr_get_child rt1 parent nm kd = Inr (rt1, f1)"
    unfolding p(1) f1 by (rule ptr_get_child_existing [OF d1])
  have later: "ptr_get_child rt2 parent nm kd = Inr (rt2, f1) \<and>
      (\<exists>n1 n2. deref_ptr rt1 f1 = Some n1 \<and> deref_ptr rt2 f1 = Some n2 \<and>
               frame_fields n2 = frame_fields n1 \<and> name n1 = nm \<and> kind n1 = kd)"
    if calls: "get_child_calls rt1 calls = Inr rt2" for calls rt2
  proof -
    from extends_get_child_calls [OF calls] d1 obtain c2 where
      c2: "deref rt2 (p @ [(kd, nm)]) = Some c2" "frame_fields c2 = frame_fields c"
      unfolding extends_def by blast
    from ptr_get_child_existing [OF c2(1)] c2 d1 ck show ?thesis
      by (simp add: p(1) f1 deref_ptr_def)
  qed
  from first later show ?thesis by blast
qed

theorem get_child_idempotent_stable_witness:
  "ptr_get_child (StackNode_new [] STACK_REGION) (Some []) ''A'' STACK_FOR =
     Inr (StackNode [] STACK_REGION [StackNode_new ''A'' STACK_FOR] 0 None None 0 0,
          Some [(STACK_FOR, ''A'')]) \<and>
   ptr_get_child (StackNode [] STACK_REGION [StackNode_new ''A'' STACK_FOR] 0 None None 0 0)
       (Some []) ''A'' STACK_FOR =
     Inr (StackNode [] STACK_REGION [StackNode_new ''A'' STACK_FOR] 0 None None 0 0,
          Some [(STACK_FOR, ''A'')]) \<and>
   get_child_calls (StackNode [] STACK_REGION [StackNode_new ''A'' STACK_FOR] 0 None None 0 0)
       [(Some [(STACK_FOR, ''A'')], ''C'', STACK_REGION), (Some [], ''0'', STACK_FOR)] =
     Inr example_grown \<and>
   ptr_get_child example_grown (Some []) ''A'' STACK_FOR =
     Inr (example_grown, Some [(STACK_FOR, ''A'')])"
proof -
  let ?r1 = "StackNode [] STACK_REGION [StackNode_new ''A'' STACK_FOR] 0 None None 0 0"
  have h: "ptr_get_child (StackNode_new [] STACK_REGION) (Some []) ''A'' STACK_FOR =
      Inr (?r1, Some [(STACK_FOR, ''A'')])"
    by (simp add: ptr_get_child_def get_child_def StackNode_new_def key_of_def)
  have calls: "get_child_calls ?r1
       [(Some [(STACK_FOR, ''A'')], ''C'', STACK_REGION), (Some [], ''0'', STACK_FOR)] =
     Inr example_grown"
    by (simp add: example_grown_def ptr_get_child_def get_child_def StackNode_new_def key_of_def
        equiv_by_def StackNode_less_def)
  from get_child_idempotent_stable [OF h] calls
  have "ptr_get_child ?r1 (Some []) ''A'' STACK_FOR = Inr (?r1, Some [(STACK_FOR, ''A'')])"
    and "ptr_get_child example_grown (Some []) ''A'' STACK_FOR =
           Inr (example_grown, Some [(STACK_FOR, ''A'')])"
    by blast+
  with h calls show ?thesis by blast
qed

subsection \<open>Inversion\<close>

lemma set_children_total [simp]:
  "total_runtime (set_children cs n) = total_runtime n"
  by (cases n) simp

lemma add_times_sel [simp]:
  "total_runtime (add_times s c n) = round_double (total_runtime n + s)"
  "children (add_times s c n) = children n"
  "key_of (add_times s c n) = key_of n"
  by (cases n; simp add: key_of_def)+

lemma get_child_total [simp]:
  "total_runtime (fst (get_child nm kd n)) = total_runtime n"
  by (simp add: get_child_def Let_def split: option.splits)

lemma invert_walk_total [simp]:
  "total_runtime (invert_walk ks s c n) = total_runtime n"
proof (cases ks)
  case Nil
  then show ?thesis by simp
next
  case (Cons k ks')
  obtain n' k' where g: "get_child (snd k) (fst k) n = (n', k')"
    by (cases "get_child (snd k) (fst k) n")
  then have "total_runtime n' = total_runtime n"
    using get_child_total [of "snd k" "fst k" n] by simp
  with g Cons show ?thesis by simp
qed

lemma set_emplace_sum_any:
  "sum_list (map f (fst (set_emplace lt v xs))) =
     (if snd (set_emplace lt v xs) then f v else 0) + sum_list (map f xs)"
  for f :: "'a \<Rightarrow> real"
  by (induction xs) (auto split: prod.splits)

lemma get_child_children_total:
  "sum_list (map total_runtime (children (fst (get_child nm kd n)))) =
   sum_list (map total_runtime (children n))"
  by (simp add: get_child_def Let_def set_emplace_sum_any StackNode_new_def split: option.splits)

lemma get_child_children_mem:
  "c \<in> set (children (fst (get_child nm kd n))) \<Longrightarrow>
   c \<in> set (children n) \<or> c = StackNode_new nm kd"
  using set_emplace_subset [of StackNode_less "StackNode_new nm kd" "children n"]
  by (auto simp: get_child_def Let_def split: option.splits)

lemma modify_child_total:
  "find_child k cs = Some ch \<Longrightarrow>
   sum_list (map total_runtime (modify_child k g cs)) =
     sum_list (map total_runtime cs) - total_runtime ch + total_runtime (g ch)"
  by (induction cs) (auto split: if_splits)

lemma modify_child_mem:
  "find_child k cs = Some ch \<Longrightarrow> c \<in> set (modify_child k g cs) \<Longrightarrow>
   c \<in> set cs \<or> c = g ch"
  by (induction cs) (auto split: if_splits)

lemma on_grid_iff: "on_grid j x \<longleftrightarrow> (\<exists>m. x = real_of_int m * 2 powi j)"
proof
  assume "on_grid j x"
  then have "x = real_of_int \<lfloor>x / 2 powi j\<rfloor> * 2 powi j"
    by (simp add: on_grid_def field_simps)
  then show "\<exists>m. x = real_of_int m * 2 powi j" ..
next
  assume "\<exists>m. x = real_of_int m * 2 powi j"
  then obtain m where "x = real_of_int m * 2 powi j" ..
  then show "on_grid j x" by (simp add: on_grid_def)
qed

lemma on_grid_0 [simp]: "on_grid j 0"
  by (simp add: on_grid_def)

lemma on_grid_add: "on_grid j x \<Longrightarrow> on_grid j y \<Longrightarrow> on_grid j (x + y)"
proof -
  assume "on_grid j x" and "on_grid j y"
  then obtain m n where "x = real_of_int m * 2 powi j" "y = real_of_int n * 2 powi j"
    by (auto simp: on_grid_iff)
  then have "x + y = real_of_int (m + n) * 2 powi j" by (simp add: algebra_simps)
  then show ?thesis unfolding on_grid_iff ..
qed

lemma on_grid_diff: "on_grid j x \<Longrightarrow> on_grid j y \<Longrightarrow> on_grid j (x - y)"
proof -
  assume "on_grid j x" and "on_grid j y"
  then obtain m n where "x = real_of_int m * 2 powi j" "y = real_of_int n * 2 powi j"
    by (auto simp: on_grid_iff)
  then have "x - y = real_of_int (m - n) * 2 powi j" by (simp add: algebra_simps)
  then show ?thesis unfolding on_grid_iff ..
qed

text \<open>A multiple of \<open>2 powi j\<close> below \<open>2 ^ 53\<close> such units is a double.\<close>

lemma round_double_on_grid:
  assumes "on_grid j x" and "- 1074 \<le> j" and "\<bar>x\<bar> < 2 ^ 53 * 2 powi j"
  shows "round_double x = x"
proof -
  from assms(1) obtain m where x: "x = real_of_int m * 2 powi j" by (auto simp: on_grid_iff)
  with assms(3) have "real_of_int \<bar>m\<bar> * 2 powi j < 2 ^ 53 * 2 powi j" by (simp add: abs_mult)
  then have "real_of_int \<bar>m\<bar> < real_of_int (2 ^ 53)" by simp
  then have "\<bar>m\<bar> < 2 ^ 53" by (simp only: of_int_less_iff)
  with x assms(2) show ?thesis by (rule round_double_grid)
qed

lemma dyadic_times_alt:
  "dyadic_times j n \<longleftrightarrow>
     on_grid j (total_runtime n) \<and> 0 \<le> total_runtime n \<and>
     sum_list (map total_runtime (children n)) \<le> total_runtime n \<and>
     (\<forall>c \<in> set (children n). dyadic_times j c)"
  by (cases n) (simp add: list_all_iff)

lemma on_grid_sum_list:
  "\<forall>c \<in> set cs. on_grid j (total_runtime c) \<Longrightarrow> on_grid j (sum_list (map total_runtime cs))"
  by (induction cs) (simp_all add: on_grid_add)

lemma dyadic_times_total:
  "dyadic_times j n \<Longrightarrow> on_grid j (total_runtime n) \<and> 0 \<le> total_runtime n"
  by (cases n) simp

lemma sum_list_totals_nonneg:
  "\<forall>c \<in> set cs. 0 \<le> total_runtime c \<Longrightarrow> 0 \<le> sum_list (map total_runtime cs)"
  by (induction cs) simp_all

lemma total_le_sum_list:
  "\<forall>c \<in> set cs. 0 \<le> total_runtime c \<Longrightarrow> ch \<in> set cs \<Longrightarrow>
   total_runtime ch \<le> sum_list (map total_runtime cs)"
proof (induction cs)
  case Nil
  then show ?case by simp
next
  case (Cons c cs)
  from Cons.prems(1) have r: "0 \<le> sum_list (map total_runtime cs)"
    by (intro sum_list_totals_nonneg) simp
  show ?case
  proof (cases "ch = c")
    case True
    with r show ?thesis by simp
  next
    case False
    with Cons have "total_runtime ch \<le> sum_list (map total_runtime cs)" by simp
    moreover from Cons.prems(1) have "0 \<le> total_runtime c" by simp
    ultimately show ?thesis by simp
  qed
qed

text \<open>The differences of the self time are exact.\<close>

lemma self_time_foldl:
  assumes "- 1074 \<le> j"
    and "on_grid j t"
    and "\<forall>c \<in> set cs. on_grid j (total_runtime c) \<and> 0 \<le> total_runtime c"
    and "sum_list (map total_runtime cs) \<le> t"
    and "t < 2 ^ 53 * 2 powi j"
  shows "foldl (\<lambda>s child. round_double (s - total_runtime child)) t cs =
         t - sum_list (map total_runtime cs)"
  using assms(2-5)
proof (induction cs arbitrary: t)
  case Nil
  show ?case by simp
next
  case (Cons c cs)
  from Cons.prems(2) have c: "on_grid j (total_runtime c)" "0 \<le> total_runtime c"
    and cs: "\<forall>c \<in> set cs. on_grid j (total_runtime c) \<and> 0 \<le> total_runtime c"
    by simp_all
  from cs have r: "0 \<le> sum_list (map total_runtime cs)"
    by (intro sum_list_totals_nonneg) simp
  with Cons.prems(3) have rest: "sum_list (map total_runtime cs) \<le> t - total_runtime c"
    by simp
  have g: "on_grid j (t - total_runtime c)" by (rule on_grid_diff [OF Cons.prems(1) c(1)])
  from rest r c(2) Cons.prems(4) have "\<bar>t - total_runtime c\<bar> < 2 ^ 53 * 2 powi j" by simp
  with g assms(1) have e: "round_double (t - total_runtime c) = t - total_runtime c"
    by (rule round_double_on_grid)
  from c(2) Cons.prems(4) have b: "t - total_runtime c < 2 ^ 53 * 2 powi j" by simp
  from Cons.IH [OF g cs rest b] show ?case by (simp add: e)
qed

text \<open>
  A walk adds the self time to one child of the inverted root, the one with the key of
  the frame, and the sum is exact.
\<close>

lemma invert_walk_children:
  assumes "- 1074 \<le> j"
    and "on_grid j s" and "0 \<le> s"
    and "\<forall>c \<in> set (children n). on_grid j (total_runtime c) \<and> 0 \<le> total_runtime c"
    and "sum_list (map total_runtime (children n)) + s < 2 ^ 53 * 2 powi j"
  shows "sum_list (map total_runtime (children (invert_walk (k # ks) s calls n))) =
           sum_list (map total_runtime (children n)) + s \<and>
         (\<forall>c \<in> set (children (invert_walk (k # ks) s calls n)).
            on_grid j (total_runtime c) \<and> 0 \<le> total_runtime c)"
proof -
  obtain n' k' where g: "get_child (snd k) (fst k) n = (n', k')"
    by (cases "get_child (snd k) (fst k) n")
  then have n': "n' = fst (get_child (snd k) (fst k) n)" and k': "k' = (fst k, snd k)"
    using get_child_key [of "snd k" "fst k" n] by simp_all
  from get_child_has_child [of "fst k" "snd k" n] obtain ch where
    ch: "find_child k' (children n') = Some ch"
    unfolding n' k' by blast
  have kids: "\<forall>c \<in> set (children n'). on_grid j (total_runtime c) \<and> 0 \<le> total_runtime c"
  proof
    fix c
    assume "c \<in> set (children n')"
    from get_child_children_mem [OF this [unfolded n']] assms(4)
    show "on_grid j (total_runtime c) \<and> 0 \<le> total_runtime c"
      by (auto simp: StackNode_new_def)
  qed
  have sum: "sum_list (map total_runtime (children n')) = sum_list (map total_runtime (children n))"
    unfolding n' by (rule get_child_children_total)
  from find_child_mem [OF ch] have mem: "ch \<in> set (children n')" .
  with kids have chg: "on_grid j (total_runtime ch)" and ch0: "0 \<le> total_runtime ch"
    by simp_all
  from kids mem have "total_runtime ch \<le> sum_list (map total_runtime (children n'))"
    by (intro total_le_sum_list) simp_all
  with sum assms(3,5) ch0 have "\<bar>total_runtime ch + s\<bar> < 2 ^ 53 * 2 powi j" by simp
  with on_grid_add [OF chg assms(2)] assms(1)
  have e: "round_double (total_runtime ch + s) = total_runtime ch + s"
    by (rule round_double_on_grid)
  let ?g = "\<lambda>c. invert_walk ks s calls (add_times s calls c)"
  have walk: "children (invert_walk (k # ks) s calls n) = modify_child k' ?g (children n')"
    by (simp add: g)
  have tg: "total_runtime (?g ch) = total_runtime ch + s" by (simp add: e)
  have "sum_list (map total_runtime (children (invert_walk (k # ks) s calls n))) =
        sum_list (map total_runtime (children n)) + s"
    using modify_child_total [OF ch, of ?g] by (simp only: walk tg sum)
  moreover have "\<forall>c \<in> set (children (invert_walk (k # ks) s calls n)).
      on_grid j (total_runtime c) \<and> 0 \<le> total_runtime c"
  proof
    fix c
    assume "c \<in> set (children (invert_walk (k # ks) s calls n))"
    then have "c \<in> set (modify_child k' ?g (children n'))" by (simp only: walk)
    from modify_child_mem [OF ch this] show "on_grid j (total_runtime c) \<and> 0 \<le> total_runtime c"
    proof
      assume "c \<in> set (children n')"
      with kids show ?thesis by simp
    next
      assume "c = ?g ch"
      with tg on_grid_add [OF chg assms(2)] ch0 assms(3) show ?thesis by simp
    qed
  qed
  ultimately show ?thesis ..
qed

lemma invert_loop_children_total:
  assumes "- 1074 \<le> j"
    and "\<forall>e \<in> set q. dyadic_times j (fst e)"
    and "\<forall>c \<in> set (children inv_root). on_grid j (total_runtime c) \<and> 0 \<le> total_runtime c"
    and "sum_list (map total_runtime (children inv_root)) +
         sum_list (map (\<lambda>e. total_runtime (fst e)) q) < 2 ^ 53 * 2 powi j"
  shows "sum_list (map total_runtime (children (invert_loop q inv_root))) =
         sum_list (map total_runtime (children inv_root)) +
         sum_list (map (\<lambda>e. total_runtime (fst e)) q)"
  using assms(2-4)
proof (induction q inv_root rule: invert_loop.induct)
  case (1 inv_root)
  show ?case by simp
next
  case (2 node ancestors q inv_root)
  let ?kids = "sum_list (map total_runtime (children inv_root))"
  let ?rest = "sum_list (map (\<lambda>e. total_runtime (fst e)) q)"
  define s where "s = total_runtime node - sum_list (map total_runtime (children node))"
  define q' where "q' = q @ map (\<lambda>child. (child, key_of node # ancestors)) (children node)"
  define inv' where "inv' = invert_walk (key_of node # ancestors) s (number_of_calls node)
                              (add_times s (number_of_calls node) inv_root)"
  from 2(2) have node: "dyadic_times j node" and qd: "\<forall>e \<in> set q. dyadic_times j (fst e)"
    by simp_all
  from node have ng: "on_grid j (total_runtime node)" and n0: "0 \<le> total_runtime node"
    and nsum: "sum_list (map total_runtime (children node)) \<le> total_runtime node"
    and nkids: "\<forall>c \<in> set (children node). dyadic_times j c"
    by (simp_all add: dyadic_times_alt [of j node])
  from nkids have ckids: "\<forall>c \<in> set (children node). on_grid j (total_runtime c) \<and> 0 \<le> total_runtime c"
    by (blast dest: dyadic_times_total)
  from 2(3) have k0: "0 \<le> ?kids" by (intro sum_list_totals_nonneg) simp
  have r0: "0 \<le> ?rest"
  proof -
    from qd have "\<forall>e \<in> set q. 0 \<le> total_runtime (fst e)"
      by (blast dest: dyadic_times_total)
    then show ?thesis by (induction q) simp_all
  qed
  from 2(4) have bound: "?kids + total_runtime node + ?rest < 2 ^ 53 * 2 powi j" by simp
  with k0 r0 have nb: "total_runtime node < 2 ^ 53 * 2 powi j" by simp
  have self: "foldl (\<lambda>s child. round_double (s - total_runtime child))
                (total_runtime node) (children node) = s"
    unfolding s_def by (rule self_time_foldl [OF assms(1) ng ckids nsum nb])
  have step: "invert_loop ((node, ancestors) # q) inv_root = invert_loop q' inv'"
    by (subst invert_loop.simps) (simp only: Let_def self q'_def inv'_def)
  have sg: "on_grid j s" unfolding s_def
  proof (rule on_grid_diff [OF ng])
    from ckids show "on_grid j (sum_list (map total_runtime (children node)))"
      by (intro on_grid_sum_list) simp
  qed
  have s0: "0 \<le> s" using nsum by (simp add: s_def)
  have sle: "s \<le> total_runtime node"
    using sum_list_totals_nonneg [of "children node"] ckids by (simp add: s_def)
  have kids': "\<forall>c \<in> set (children (add_times s (number_of_calls node) inv_root)).
      on_grid j (total_runtime c) \<and> 0 \<le> total_runtime c"
    using 2(3) by simp
  from bound r0 sle
  have b': "sum_list (map total_runtime (children (add_times s (number_of_calls node) inv_root))) + s
        < 2 ^ 53 * 2 powi j"
    by simp
  from invert_walk_children [OF assms(1) sg s0 kids' b', of "key_of node" ancestors
      "number_of_calls node"]
  have w1: "sum_list (map total_runtime (children inv')) = ?kids + s"
    and w2: "\<forall>c \<in> set (children inv'). on_grid j (total_runtime c) \<and> 0 \<le> total_runtime c"
    by (simp_all add: inv'_def)
  have qsum: "sum_list (map (\<lambda>e. total_runtime (fst e)) q') =
      ?rest + sum_list (map total_runtime (children node))"
    by (simp add: q'_def comp_def)
  have qd': "\<forall>e \<in> set q'. dyadic_times j (fst e)"
    using qd nkids by (auto simp: q'_def)
  have total: "sum_list (map total_runtime (children inv')) +
      sum_list (map (\<lambda>e. total_runtime (fst e)) q') = ?kids + total_runtime node + ?rest"
    by (simp add: w1 qsum s_def)
  with bound have b2: "sum_list (map total_runtime (children inv')) +
      sum_list (map (\<lambda>e. total_runtime (fst e)) q') < 2 ^ 53 * 2 powi j"
    by simp
  have "sum_list (map total_runtime (children (invert_loop q' inv'))) =
        sum_list (map total_runtime (children inv')) +
        sum_list (map (\<lambda>e. total_runtime (fst e)) q')"
    by (rule 2(1) [OF self [symmetric] refl q'_def, folded inv'_def, OF qd' w2 b2])
  with total show ?case unfolding step by simp
qed



text \<open>The roundings of the session of 0.9 seconds.\<close>

lemma round_sec_0_7: "round_double (sec_0_9 - sec_0_2) = sec_0_7"
  unfolding sec_0_9_def sec_0_2_def sec_0_7_def
  by (subst round_double_eval [where e = "- 53"]) (simp_all add: rne_def power_int_minus)

lemma round_sec_0_9_pred: "round_double (sec_0_7 + sec_0_2) = sec_0_9_pred"
  unfolding sec_0_9_pred_def sec_0_2_def sec_0_7_def
  by (subst round_double_eval [where e = "- 53"]) (simp_all add: rne_def power_int_minus)

lemma round_sec_exact: "round_double sec_0_7 = sec_0_7" "round_double sec_0_2 = sec_0_2"
  using round_double_grid [of sec_0_7 3152519739159347 "- 52"]
    round_double_grid [of sec_0_2 3602879701896397 "- 54"]
  by (simp_all add: sec_0_7_def sec_0_2_def power_int_minus)


subsection \<open>Printing\<close>

text \<open>
  The comparison with the threshold, away from the threshold: the quotient and the product
  are rounded, and neither rounding crosses the doubles \<open>288230376151711 / 2 ^ 58\<close> and
  \<open>144115188075856 / 2 ^ 57\<close> on the two sides of \<open>0.001\<close>, whose products with 100
  are doubles on the two sides of \<open>tenth\<close>.
\<close>

lemma below_threshold:
  assumes "0 < tree_time" and "t * 1000 \<le> tree_time * (1 - 1 / 2 ^ 48)"
  shows "dbl_less (times_100 (dbl_div t tree_time)) tenth"
proof -
  define c :: real where "c = 288230376151711 / 2 ^ 58"
  have c: "round_double c = c" "0 < c" "c < 2 ^ 1024"
    using round_double_grid [of c 288230376151711 "- 58"]
    by (simp_all add: c_def power_int_minus)
  have c100: "round_double (c * 100) = c * 100" "0 < c * 100" "c * 100 < 2 ^ 1024"
    using round_double_grid [of "c * 100" 7205759403792775 "- 56"]
    by (simp_all add: c_def power_int_minus)
  have lt: "c * 100 < tenth" by (simp add: c_def tenth_def)
  have "(1 - 1 / 2 ^ 48) / 1000 \<le> c" by (simp add: c_def)
  with assms(1) have "tree_time * ((1 - 1 / 2 ^ 48) / 1000) \<le> tree_time * c"
    by (intro mult_left_mono) simp_all
  with assms(2) have "t \<le> c * tree_time" by (simp add: mult.commute)
  with assms(1) have q: "t / tree_time \<le> c" by (simp add: pos_divide_le_eq)
  from assms(1) have d: "dbl_div t tree_time = dbl_round (t / tree_time)"
    by (simp add: dbl_div_def)
  from dbl_round_le [OF c(1,2) q c(3)] show ?thesis
  proof
    assume "dbl_round (t / tree_time) = MinusInf"
    then show ?thesis by (simp add: d)
  next
    assume "\<exists>r. dbl_round (t / tree_time) = Finite r \<and> r \<le> c"
    then obtain r where r: "dbl_round (t / tree_time) = Finite r" "r \<le> c" by blast
    then have "r * 100 \<le> c * 100" by simp
    from dbl_round_le [OF c100(1,2) this c100(3)] show ?thesis
    proof
      assume "dbl_round (r * 100) = MinusInf"
      then show ?thesis by (simp add: d r(1))
    next
      assume "\<exists>r'. dbl_round (r * 100) = Finite r' \<and> r' \<le> c * 100"
      then obtain r' where "dbl_round (r * 100) = Finite r'" "r' \<le> c * 100" by blast
      with lt show ?thesis by (simp add: d r(1))
    qed
  qed
qed

lemma above_threshold:
  assumes "0 < tree_time" and "tree_time * (1 + 1 / 2 ^ 48) \<le> t * 1000"
  shows "\<not> dbl_less (times_100 (dbl_div t tree_time)) tenth"
proof -
  define c :: real where "c = 144115188075856 / 2 ^ 57"
  have c: "round_double c = c" "0 < c"
    using round_double_grid [of c 144115188075856 "- 57"]
    by (simp_all add: c_def power_int_minus)
  have c100: "round_double (c * 100) = c * 100" "0 < c * 100"
    using round_double_grid [of "c * 100" 3602879701896400 "- 55"]
    by (simp_all add: c_def power_int_minus)
  have ge: "tenth \<le> c * 100" by (simp add: c_def tenth_def)
  have "c \<le> (1 + 1 / 2 ^ 48) / 1000" by (simp add: c_def)
  with assms(1) have "tree_time * c \<le> tree_time * ((1 + 1 / 2 ^ 48) / 1000)"
    by (intro mult_left_mono) simp_all
  with assms(2) have "c * tree_time \<le> t" by (simp add: mult.commute)
  with assms(1) have q: "c \<le> t / tree_time" by (simp add: pos_le_divide_eq)
  from assms(1) have d: "dbl_div t tree_time = dbl_round (t / tree_time)"
    by (simp add: dbl_div_def)
  from dbl_round_ge [OF c q] show ?thesis
  proof
    assume "dbl_round (t / tree_time) = PlusInf"
    then show ?thesis by (simp add: d)
  next
    assume "\<exists>r. dbl_round (t / tree_time) = Finite r \<and> c \<le> r"
    then obtain r where r: "dbl_round (t / tree_time) = Finite r" "c \<le> r" by blast
    then have "c * 100 \<le> r * 100" by simp
    from dbl_round_ge [OF c100 this] show ?thesis
    proof
      assume "dbl_round (r * 100) = PlusInf"
      then show ?thesis by (simp add: d r(1))
    next
      assume "\<exists>r'. dbl_round (r * 100) = Finite r' \<and> c * 100 \<le> r'"
      then obtain r' where "dbl_round (r * 100) = Finite r'" "c * 100 \<le> r'" by blast
      with ge show ?thesis by (simp add: d r(1))
    qed
  qed
qed

lemma set_emplace_rejected:
  "\<not> snd (set_emplace lt v xs) \<Longrightarrow> fst (set_emplace lt v xs) = xs"
  by (induction xs) (auto split: prod.splits if_splits)

lemma set_emplace_keeps: "set xs \<subseteq> set (fst (set_emplace lt v xs))"
  by (induction xs) (auto split: prod.splits)

lemma by_time_alt:
  "by_time a b \<longleftrightarrow>
   total_runtime a > total_runtime b \<or> (total_runtime a = total_runtime b \<and> name a < name b)"
  by (auto simp: by_time_def)

lemma by_time_transp: "transp by_time"
  by (rule transpI) (auto simp: by_time_alt)

lemma by_time_equiv:
  "equiv_by by_time a b \<longleftrightarrow> total_runtime a = total_runtime b \<and> name a = name b"
  by (auto simp: equiv_by_def by_time_alt)

lemma set_emplace_by_time_sorted:
  "sorted_wrt by_time xs \<Longrightarrow> sorted_wrt by_time (fst (set_emplace by_time v xs))"
  using set_emplace_sorted [OF by_time_transp, of xs v] set_emplace_rejected [of by_time v xs]
  by (cases "snd (set_emplace by_time v xs)") simp_all

lemma foldl_emplace_sorted:
  "sorted_wrt by_time acc \<Longrightarrow>
   sorted_wrt by_time (foldl (\<lambda>s child. fst (set_emplace by_time child s)) acc cs)"
  by (induction cs arbitrary: acc) (simp_all add: set_emplace_by_time_sorted)

lemma children_by_time_sorted: "sorted_wrt by_time (children_by_time n)"
  by (simp add: children_by_time_def foldl_emplace_sorted)

lemma foldl_emplace_keeps:
  "set acc \<subseteq> set (foldl (\<lambda>s child. fst (set_emplace by_time child s)) acc cs)"
proof (induction cs arbitrary: acc)
  case Nil
  show ?case by simp
next
  case (Cons c cs)
  from set_emplace_keeps [of acc by_time c] Cons [of "fst (set_emplace by_time c acc)"]
  show ?case by auto
qed

lemma foldl_emplace_untied:
  assumes "sorted_wrt by_time acc"
    and "set acc \<subseteq> A" and "set cs \<subseteq> A"
    and "\<forall>c' \<in> A. c' \<noteq> c \<longrightarrow> \<not> equiv_by by_time c' c"
    and "c \<in> set acc \<union> set cs"
  shows "c \<in> set (foldl (\<lambda>s child. fst (set_emplace by_time child s)) acc cs)"
  using assms(1,2,3,5)
proof (induction cs arbitrary: acc)
  case Nil
  then show ?case by simp
next
  case (Cons x cs)
  let ?acc = "fst (set_emplace by_time x acc)"
  have s: "sorted_wrt by_time ?acc" by (rule set_emplace_by_time_sorted [OF Cons.prems(1)])
  have sub: "set ?acc \<subseteq> A"
    using set_emplace_subset [of by_time x acc] Cons.prems(2,3) by auto
  have cs: "set cs \<subseteq> A" using Cons.prems(3) by simp
  have "c \<in> set ?acc \<union> set cs"
  proof (cases "c \<in> set acc \<or> c \<in> set cs")
    case True
    with set_emplace_keeps [of acc by_time x] show ?thesis by auto
  next
    case False
    with Cons.prems(4) have cx: "c = x" by simp
    have "c \<notin> set acc" using False by simp
    with Cons.prems(2) assms(4) have "\<forall>y \<in> set acc. \<not> equiv_by by_time y c" by auto
    then have "snd (set_emplace by_time c acc)"
      by (simp add: set_emplace_inserted [OF by_time_transp Cons.prems(1)])
    from set_emplace_set [OF this] cx show ?thesis by simp
  qed
  from Cons.IH [OF s sub cs this] show ?case by simp
qed

lemma children_by_time_untied:
  assumes "c \<in> set (children n)"
    and "\<forall>c' \<in> set (children n). c' \<noteq> c \<longrightarrow>
           total_runtime c' \<noteq> total_runtime c \<or> name c' \<noteq> name c"
  shows "c \<in> set (children_by_time n)"
  unfolding children_by_time_def
  by (rule foldl_emplace_untied [where A = "set (children n)"])
     (use assms in \<open>auto simp: by_time_equiv\<close>)

lemma children_by_time_Nil: "children n = [] \<Longrightarrow> children_by_time n = []"
  by (simp add: children_by_time_def)


lemmas print_recursive_StackNode =
  print_recursive.simps [of _ _ _ "StackNode nm kd cs tot mx av calls st"]
  for nm kd cs tot mx av calls st

lemmas reduce_nodes_StackNode =
  reduce_nodes.simps(2) [of "StackNode nm kd cs tot mx av calls st"]
  for nm kd cs tot mx av calls st

text \<open>The quotients, differences and products of the reports below.\<close>

lemma dbl_round_values:
  "dbl_round 0 = Finite 0"
  "dbl_round 1 = Finite 1"
  "dbl_round 25 = Finite 25"
  "dbl_round 50 = Finite 50"
  "dbl_round 75 = Finite 75"
  "dbl_round 100 = Finite 100"
  using round_double_grid [of 1 1 0] round_double_grid [of 25 25 0]
    round_double_grid [of 50 50 0] round_double_grid [of 75 75 0]
    round_double_grid [of 100 100 0]
  by (simp_all add: dbl_round_exact)

lemma dbl_div_self: "x \<noteq> 0 \<Longrightarrow> dbl_div x x = Finite 1"
  by (simp add: dbl_div_def dbl_round_values)

lemma dbl_div_half: "dbl_div 2 4 = Finite (1 / 2)"
  using round_double_grid [of "1 / 2" 1 "- 1"]
  by (simp add: dbl_div_def dbl_round_exact power_int_minus)

lemma scenario_nonzero: "ms_40 \<noteq> 0"
  by (simp add: ms_40_def)

lemma dbl_div_scenario:
  "dbl_div ms_10 ms_40 = Finite (1 / 4)"
  "dbl_div ms_30 ms_40 = Finite (3 / 4)"
proof -
  have "round_double (ms_10 / ms_40) = 1 / 4"
    using round_double_grid [of "1 / 4" 1 "- 2"]
    by (simp add: ms_10_def ms_40_def power_int_minus)
  then show "dbl_div ms_10 ms_40 = Finite (1 / 4)"
    by (simp add: dbl_div_def dbl_round_finite scenario_nonzero)
  have "round_double (ms_30 / ms_40) = 3 / 4"
    unfolding ms_30_def ms_40_def
    by (subst round_double_eval [where e = "- 53"]) (simp_all add: rne_def power_int_minus)
  then show "dbl_div ms_30 ms_40 = Finite (3 / 4)"
    by (simp add: dbl_div_def dbl_round_finite scenario_nonzero)
qed

lemma scenario_order:
  "ms_10 < ms_30" "ms_10 \<noteq> ms_30" "ms_30 \<noteq> ms_10" "ms_40 \<noteq> 0" "ms_10 \<noteq> 0" "ms_30 \<noteq> 0"
  by (simp_all add: ms_10_def ms_30_def ms_40_def)

lemma scenario_below: "dbl_less (times_100 (dbl_div us_10 ms_40)) tenth"
  by (rule below_threshold) (simp_all add: us_10_def ms_40_def)

lemmas print_eval =
  print_def print_recursive_StackNode children_by_time_def by_time_def
  imbalance_of_def enumerate_eq_zip dbl_div_self dbl_round_values tenth_def

lemma scenario_print:
  "print scenario_tree =
     [Line ''|-> '' (Finite 75) (Some (Finite 0)) 1 ''B'' STACK_FOR,
      Line ''|-> '' (Finite 25) (Some (Finite 0)) 1 ''A'' STACK_FOR, Blank]"
  using scenario_below
  by (simp add: scenario_tree_def print_eval dbl_div_scenario scenario_order)



text \<open>
  The threshold itself is subject to rounding. A kernel of 30 milliseconds in a tree of 30
  seconds has less than 0.1% of the tree total, since the double nearest to 0.03 is less
  than 0.03; its quotient is rounded to the double nearest to 0.001 and the product to
  \<open>tenth\<close>, which is not below the threshold, and the kernel is printed.
\<close>

lemma print_rounded:
  "ms_30 * 1000 < 30 \<and>
   print_recursive mi ci 30 (StackNode ''E'' STACK_FOR [] ms_30 None None 1 0) =
     [Line mi (Finite tenth) None 1 ''E'' STACK_FOR]"
proof -
  define c :: real where "c = 1152921504606847 / 2 ^ 60"
  have q: "round_double (ms_30 / 30) = c"
    unfolding ms_30_def c_def
    by (subst round_double_eval [where e = "- 62"]) (simp_all add: rne_def power_int_minus)
  have p: "round_double (c * 100) = tenth"
    unfolding tenth_def c_def
    by (subst round_double_eval [where e = "- 56"]) (simp_all add: rne_def power_int_minus)
  have "\<bar>c\<bar> < 2 ^ 1024" by (simp add: c_def)
  with q have d: "dbl_div ms_30 30 = Finite c"
    by (simp add: dbl_div_def dbl_round_finite)
  have "\<bar>tenth\<bar> < 2 ^ 1024" by (simp add: tenth_def)
  with p have t: "times_100 (Finite c) = Finite tenth"
    by (simp add: dbl_round_finite)
  have "ms_30 * 1000 < 30" by (simp add: ms_30_def)
  moreover have "print_recursive mi ci 30 (StackNode ''E'' STACK_FOR [] ms_30 None None 1 0) =
     [Line mi (Finite tenth) None 1 ''E'' STACK_FOR]"
    by (subst print_recursive.simps) (simp add: d t imbalance_of_def del: times_100.simps)
  ultimately show ?thesis ..
qed

subsection \<open>A single process\<close>

lemma all_frames_self: "n \<in> set (all_frames n)"
  by (cases n) simp

lemma all_frames_alt: "all_frames n = n # concat (map all_frames (children n))"
  by (cases n) simp

lemma map_enumerate_snd: "map (\<lambda>(i, x). f x) (enumerate k xs) = map f xs"
  by (induction xs arbitrary: k) simp_all

lemma reduce_single: "reduce_nodes [n] = [reduce_serial n]"
proof (induction n)
  case (StackNode nm kd cs tot mx av calls st)
  have "map (\<lambda>(i, child). reduce_nodes [child]) (enumerate 0 cs) =
        map (\<lambda>(i, child). [reduce_serial child]) (enumerate 0 cs)"
    by (rule map_cong [OF refl]) (auto simp: in_set_enumerate_eq StackNode)
  then have "map hd (map (\<lambda>(i, child). reduce_nodes [child]) (enumerate 0 cs)) =
        map (\<lambda>(i, child). reduce_serial child) (enumerate 0 cs)"
    by (simp add: comp_def case_prod_unfold)
  then have "map hd (map (\<lambda>(i, child). reduce_nodes [child]) (enumerate 0 cs)) =
        map reduce_serial cs"
    by (simp only: map_enumerate_snd)
  then show ?case
    by (simp add: reduce_nodes_StackNode allreduce_sum_def allreduce_max_def)
qed

lemma reduce_serial_frames:
  "f \<in> set (all_frames (reduce_serial n)) \<Longrightarrow>
   max_runtime f = Some (total_runtime f) \<and> avg_runtime f = Some (total_runtime f)"
  by (induction n arbitrary: f) auto

lemma print_recursive_lines:
  "l \<in> set (print_recursive mi ci tree_time n) \<Longrightarrow>
   \<exists>f \<in> set (all_frames n).
     \<not> dbl_less (times_100 (dbl_div (total_runtime f) tree_time)) tenth \<and>
     (\<exists>ind. l = Line ind (times_100 (dbl_div (total_runtime f) tree_time)) (imbalance_of f)
                 (number_of_calls f) (name f) (kind f))"
proof (induction n arbitrary: l mi ci)
  case (StackNode nm kd cs tot mx av calls st)
  let ?n = "StackNode nm kd cs tot mx av calls st"
  from StackNode.prems have shown: "\<not> dbl_less (times_100 (dbl_div tot tree_time)) tenth"
    by (subst (asm) print_recursive.simps) (auto simp: Let_def split: if_splits)
  from StackNode.prems consider
    (own) "l = Line mi (times_100 (dbl_div tot tree_time)) (imbalance_of ?n) calls nm kd"
    | (child) i c where "(i, c) \<in> set (enumerate 0 (children_by_time ?n))"
        "l \<in> set (print_recursive (ci @ ''|-> '')
                  (if i = length (children_by_time ?n) - 1
                   then ci @ ''    '' else ci @ ''|   '') tree_time c)"
    by (subst (asm) print_recursive.simps) (auto simp: Let_def split: if_splits)
  then show ?case
  proof cases
    case own
    with shown show ?thesis by auto
  next
    case (child i c)
    then have "c \<in> set (children_by_time ?n)" by (auto simp: in_set_enumerate_eq)
    with children_by_time_subset [of ?n] have c: "c \<in> set cs" by auto
    from StackNode.IH [OF c child(2)] c show ?thesis by auto
  qed
qed

lemma shown_nonzero:
  "tree_time \<noteq> 0 \<Longrightarrow> \<not> dbl_less (times_100 (dbl_div t tree_time)) tenth \<Longrightarrow> t \<noteq> 0"
  by (auto simp: dbl_div_def dbl_round_values tenth_def)

lemma balanced_imbalance:
  "max_runtime f = Some t \<Longrightarrow> avg_runtime f = Some t \<Longrightarrow> t \<noteq> 0 \<Longrightarrow>
   imbalance_of f = Some (Finite 0)"
  by (simp add: imbalance_of_def dbl_div_self dbl_round_values)

lemma reduce_serial_total [simp]: "total_runtime (reduce_serial n) = total_runtime n"
  by (cases n) simp

text \<open>
  C9, amended. With one process the reduction is the loop without MPI: every frame has its
  total as maximum and as average. When the total of the tree is not zero, every line of
  the report has the imbalance 0.
\<close>

theorem single_process_imbalance:
  "reduce_over_mpi [rt] = [reduce_serial rt] \<and>
   (\<forall>f \<in> set (all_frames (hd (reduce_over_mpi [rt]))).
      max_runtime f = Some (total_runtime f) \<and> avg_runtime f = Some (total_runtime f)) \<and>
   (total_runtime rt \<noteq> 0 \<longrightarrow>
      (\<forall>l \<in> set (print (hd (reduce_over_mpi [rt]))).
         l = Blank \<or> (\<exists>ind pct c nm kd. l = Line ind pct (Some (Finite 0)) c nm kd)))"
proof (intro conjI impI ballI)
  show r: "reduce_over_mpi [rt] = [reduce_serial rt]"
    by (simp add: reduce_over_mpi_def reduce_single)
  fix f
  assume "f \<in> set (all_frames (hd (reduce_over_mpi [rt])))"
  then show "max_runtime f = Some (total_runtime f)" "avg_runtime f = Some (total_runtime f)"
    using reduce_serial_frames [of f rt] by (simp_all add: r)
next
  fix l
  assume nz: "total_runtime rt \<noteq> 0"
    and l: "l \<in> set (print (hd (reduce_over_mpi [rt])))"
  have r: "hd (reduce_over_mpi [rt]) = reduce_serial rt"
    by (simp add: reduce_over_mpi_def reduce_single)
  show "l = Blank \<or> (\<exists>ind pct c nm kd. l = Line ind pct (Some (Finite 0)) c nm kd)"
  proof (cases "l = Blank")
    case True
    then show ?thesis by simp
  next
    case False
    with l have "l \<in> set (print_recursive [] [] (total_runtime rt) (reduce_serial rt))"
      by (simp add: print_def r)
    from print_recursive_lines [OF this] obtain f ind where
      f: "f \<in> set (all_frames (reduce_serial rt))"
      and shown: "\<not> dbl_less (times_100 (dbl_div (total_runtime f) (total_runtime rt))) tenth"
      and line: "l = Line ind (times_100 (dbl_div (total_runtime f) (total_runtime rt)))
                   (imbalance_of f) (number_of_calls f) (name f) (kind f)"
      by blast
    from reduce_serial_frames [OF f] shown_nonzero [OF nz shown]
    have "imbalance_of f = Some (Finite 0)" by (auto intro: balanced_imbalance)
    with line show ?thesis by blast
  qed
qed

theorem single_process_imbalance_witness:
  "total_runtime scenario_tree \<noteq> 0 \<and>
   max_runtime (hd (reduce_over_mpi [scenario_tree])) = Some ms_40 \<and>
   avg_runtime (hd (reduce_over_mpi [scenario_tree])) = Some ms_40 \<and>
   reduce_over_mpi [scenario_tree] = [scenario_tree] \<and>
   print (hd (reduce_over_mpi [scenario_tree])) =
     [Line ''|-> '' (Finite 75) (Some (Finite 0)) 1 ''B'' STACK_FOR,
      Line ''|-> '' (Finite 25) (Some (Finite 0)) 1 ''A'' STACK_FOR, Blank]"
proof -
  have h: "total_runtime scenario_tree \<noteq> 0" by (simp add: scenario_tree_def scenario_order)
  have t: "total_runtime (hd (reduce_over_mpi [scenario_tree])) = ms_40"
    using single_process_imbalance [of scenario_tree] by (simp add: scenario_tree_def)
  from single_process_imbalance [of scenario_tree]
    all_frames_self [of "hd (reduce_over_mpi [scenario_tree])"]
  have "max_runtime (hd (reduce_over_mpi [scenario_tree])) =
          Some (total_runtime (hd (reduce_over_mpi [scenario_tree])))"
    and "avg_runtime (hd (reduce_over_mpi [scenario_tree])) =
          Some (total_runtime (hd (reduce_over_mpi [scenario_tree])))"
    by blast+
  with t have m: "max_runtime (hd (reduce_over_mpi [scenario_tree])) = Some ms_40"
    "avg_runtime (hd (reduce_over_mpi [scenario_tree])) = Some ms_40"
    by simp_all
  have r: "reduce_over_mpi [scenario_tree] = [scenario_tree]"
    using single_process_imbalance [of scenario_tree] by (simp add: scenario_tree_def)
  from h m r scenario_print show ?thesis by simp
qed

lemma zero_reduce:
  "reduce_over_mpi [zero_tree] =
    [StackNode [] STACK_REGION [StackNode ''A'' STACK_FOR [] 0 (Some 0) (Some 0) 1 0]
       0 (Some 0) (Some 0) 1 0]"
  by (simp add: zero_tree_def reduce_over_mpi_def reduce_nodes_StackNode reduce_nodes.simps(1) allreduce_sum_def
      allreduce_max_def enumerate_eq_zip)

text \<open>
  C9, as stated, fails for a session of no duration: the frame \<open>A\<close> with total 0 is
  printed (\<open>0/0\<close> is not below the threshold), and its imbalance is \<open>0/0\<close>, not 0.
\<close>

theorem zero_print:
  "print (hd (reduce_over_mpi [zero_tree])) = [Line ''|-> '' NaN (Some NaN) 1 ''A'' STACK_FOR, Blank]"
  by (simp add: zero_reduce print_eval dbl_div_def)

subsection \<open>Reduction over the processes\<close>

lemma shape_of_alt: "shape_of n = Shape (key_of n) (map shape_of (children n))"
  by (cases n) (simp add: key_of_def)

lemma shape_key: "shape_of a = shape_of b \<Longrightarrow> key_of a = key_of b"
  by (simp add: shape_of_alt)

lemma set_runtimes_sel [simp]:
  "children (set_runtimes tot mx av n) = children n"
  "key_of (set_runtimes tot mx av n) = key_of n"
  "total_runtime (set_runtimes tot mx av n) = tot"
  "max_runtime (set_runtimes tot mx av n) = Some mx"
  "avg_runtime (set_runtimes tot mx av n) = Some av"
  by (cases n; simp add: key_of_def)+

lemma set_children_sel [simp]:
  "max_runtime (set_children cs n) = max_runtime n"
  "avg_runtime (set_children cs n) = avg_runtime n"
  by (cases n; simp)+

lemma find_child_get_child:
  "find_child k (children (fst (get_child nm kd n))) =
     (if k = (kd, nm)
      then Some (case find_child k (children n) of Some x \<Rightarrow> x | None \<Rightarrow> StackNode_new nm kd)
      else find_child k (children n))"
proof (cases "find_child (kd, nm) (children n)")
  case None
  then have g: "fst (get_child nm kd n) =
      set_children (fst (set_emplace StackNode_less (StackNode_new nm kd) (children n))) n"
    by (simp add: get_child_def Let_def set_find_StackNode)
  show ?thesis
  proof (cases "k = (kd, nm)")
    case True
    with None find_child_emplaced [of "StackNode_new nm kd" "children n"] show ?thesis
      by (simp add: g)
  next
    case False
    then show ?thesis
      using find_child_emplace [of "StackNode_new nm kd" k StackNode_less "children n"]
      by (simp add: g)
  qed
next
  case (Some x)
  then show ?thesis by (simp add: get_child_found)
qed

lemma adopt_kids:
  "snd (adopt cs n) = map (\<lambda>c. adopted_child c n) cs"
proof (induction cs arbitrary: n)
  case Nil
  show ?case by simp
next
  case (Cons c cs)
  obtain n' k where g: "get_child (name c) (kind c) n = (n', k)"
    by (cases "get_child (name c) (kind c) n")
  then have n': "n' = fst (get_child (name c) (kind c) n)" and k: "k = key_of c"
    using get_child_key [of "name c" "kind c" n] by (simp_all add: key_of_def)
  have first: "the (find_child k (children n')) = adopted_child c n"
    unfolding n' k by (simp add: find_child_get_child adopted_child_def key_of_def)
  have rest: "adopted_child c' n' = adopted_child c' n" for c'
    unfolding n' adopted_child_def
    by (auto simp: find_child_get_child key_of_def split: option.splits)
  obtain n'' kids where a: "adopt cs n' = (n'', kids)" by (cases "adopt cs n'")
  with Cons [of n'] have "kids = map (\<lambda>c. adopted_child c n') cs" by simp
  with g a first rest show ?case by simp
qed

lemma local_total_Nil [simp]: "local_total t [] = total_runtime t"
  by (simp add: local_total_def)

lemma local_total_Cons:
  "local_total t (k # p) =
     (case find_child k (children t) of None \<Rightarrow> 0 | Some c \<Rightarrow> local_total c p)"
  by (simp add: local_total_def split: option.splits)

lemma local_total_new: "local_total (StackNode_new nm kd) p = 0"
  by (cases p) (simp_all add: local_total_Cons StackNode_new_def)

lemma local_total_adopted:
  "local_total (adopted_child c n) p = local_total n (key_of c # p)"
  by (simp add: adopted_child_def local_total_Cons local_total_new split: option.splits)

lemma length_reduce_nodes: "length (reduce_nodes ns) = length ns"
proof (cases ns)
  case Nil
  then show ?thesis by (simp add: reduce_nodes.simps(1))
next
  case (Cons node others)
  show ?thesis unfolding Cons
    by (subst reduce_nodes.simps(2)) (simp only: Let_def length_Cons length_map length_enumerate)
qed

lemma reduce_nodes_hd:
  "hd (reduce_nodes (node # others)) =
     set_children
       (map (\<lambda>child. hd (reduce_nodes (child # map (adopted_child child) others)))
          (children node))
       (set_runtimes (allreduce_sum (map total_runtime (node # others)))
          (allreduce_max (map total_runtime (node # others)))
          (allreduce_sum (map total_runtime (node # others)) / real (length (node # others)))
          node)"
proof -
  let ?tot = "allreduce_sum (map total_runtime (node # others))"
  let ?mx = "allreduce_max (map total_runtime (node # others))"
  let ?av = "?tot / real (length (node # others))"
  let ?node' = "set_runtimes ?tot ?mx ?av node"
  let ?adopted = "map (\<lambda>n. adopt (children ?node') (set_runtimes ?tot ?mx ?av n)) others"
  let ?visits = "map (\<lambda>(i, child). reduce_nodes (child # map (\<lambda>a. snd a ! i) ?adopted))
                   (enumerate 0 (children ?node'))"
  have unfold: "hd (reduce_nodes (node # others)) = set_children (map hd ?visits) ?node'"
    by (subst reduce_nodes.simps(2)) (simp only: Let_def list.sel)
  have cs: "children ?node' = children node" by simp
  have kids: "map (\<lambda>a. snd a ! i) ?adopted = map (adopted_child (children node ! i)) others"
    if "i < length (children node)" for i
  proof (rule nth_equalityI)
    show "length (map (\<lambda>a. snd a ! i) ?adopted) =
          length (map (adopted_child (children node ! i)) others)"
      by simp
    fix j
    assume "j < length (map (\<lambda>a. snd a ! i) ?adopted)"
    then have j: "j < length others" by simp
    then have "map (\<lambda>a. snd a ! i) ?adopted ! j =
        snd (adopt (children node) (set_runtimes ?tot ?mx ?av (others ! j))) ! i"
      by (simp only: nth_map length_map cs)
    also have "\<dots> = adopted_child (children node ! i) (set_runtimes ?tot ?mx ?av (others ! j))"
      using that by (simp only: adopt_kids nth_map)
    also have "\<dots> = adopted_child (children node ! i) (others ! j)"
      by (simp only: adopted_child_def set_runtimes_sel)
    finally show "map (\<lambda>a. snd a ! i) ?adopted ! j =
        map (adopted_child (children node ! i)) others ! j"
      using j by (simp only: nth_map)
  qed
  have "?visits =
        map (\<lambda>(i, child). reduce_nodes (child # map (adopted_child child) others))
          (enumerate 0 (children node))"
    unfolding cs
  proof (rule map_cong [OF refl])
    fix x
    assume "x \<in> set (enumerate 0 (children node))"
    then have "fst x < length (children node)" and "snd x = children node ! fst x"
      by (simp_all add: in_set_enumerate_eq)
    then obtain i where x: "x = (i, children node ! i)" and i: "i < length (children node)"
      by (metis prod.collapse)
    show "(case x of (i, child) \<Rightarrow>
             reduce_nodes (child # map (\<lambda>a. snd a ! i)
               (map (\<lambda>n. adopt (children node) (set_runtimes ?tot ?mx ?av n)) others))) =
          (case x of (i, child) \<Rightarrow> reduce_nodes (child # map (adopted_child child) others))"
      unfolding x prod.case using kids [OF i] by (simp only: cs)
  qed
  also have "\<dots> = map (\<lambda>child. reduce_nodes (child # map (adopted_child child) others))
                    (children node)"
    by (rule map_enumerate_snd)
  finally have "map hd ?visits =
      map (\<lambda>child. hd (reduce_nodes (child # map (adopted_child child) others))) (children node)"
    by (simp only: map_map comp_def)
  with unfold show ?thesis by (simp only:)
qed

lemma find_child_map:
  "(\<And>c. c \<in> set cs \<Longrightarrow> key_of (g c) = key_of c) \<Longrightarrow>
   find_child k (map g cs) = map_option g (find_child k cs)"
  by (induction cs) auto

lemma frame_totals_child:
  "find_child k (children node) = Some c \<Longrightarrow>
   frame_totals (c # map (adopted_child c) others) p = frame_totals (node # others) (k # p)"
  by (simp add: frame_totals_def local_total_Cons local_total_adopted comp_def find_child_key)

lemma reduce_nodes_rank0:
  "shape_of (hd (reduce_nodes (node # others))) = shape_of node \<and>
   (\<forall>p f. deref (hd (reduce_nodes (node # others))) p = Some f \<longrightarrow>
      total_runtime f = allreduce_sum (frame_totals (node # others) p) \<and>
      max_runtime f = Some (allreduce_max (frame_totals (node # others) p)) \<and>
      avg_runtime f = Some (allreduce_sum (frame_totals (node # others) p) /
                            real (length (node # others))))"
proof (induction node arbitrary: others)
  case (StackNode nm kd cs tot mx av calls st)
  let ?node = "StackNode nm kd cs tot mx av calls st"
  let ?g = "\<lambda>child. hd (reduce_nodes (child # map (adopted_child child) others))"
  let ?m = "hd (reduce_nodes (?node # others))"
  have m: "?m = set_children (map ?g cs)
      (set_runtimes (allreduce_sum (map total_runtime (?node # others)))
          (allreduce_max (map total_runtime (?node # others)))
          (allreduce_sum (map total_runtime (?node # others)) / real (length (?node # others)))
          ?node)"
    using reduce_nodes_hd [of ?node others] by simp
  have IH: "shape_of (?g c) = shape_of c \<and>
     (\<forall>p f. deref (?g c) p = Some f \<longrightarrow>
      total_runtime f = allreduce_sum (frame_totals (c # map (adopted_child c) others) p) \<and>
      max_runtime f = Some (allreduce_max (frame_totals (c # map (adopted_child c) others) p)) \<and>
      avg_runtime f = Some (allreduce_sum (frame_totals (c # map (adopted_child c) others) p) /
                            real (length (?node # others))))"
    if "c \<in> set cs" for c
    using StackNode.IH [OF that, of "map (adopted_child c) others"] by simp
  have IH_shape: "shape_of (?g c) = shape_of c" if "c \<in> set cs" for c
    using IH [OF that] by blast
  have "map shape_of (map ?g cs) = map shape_of cs"
    unfolding map_map comp_def by (rule map_cong [OF refl]) (rule IH_shape)
  then have shape: "shape_of ?m = shape_of ?node"
    unfolding m by (simp add: shape_of_alt [of "set_children _ _"])
  have keys: "key_of (?g c) = key_of c" if "c \<in> set cs" for c
    using IH_shape [OF that] by (rule shape_key)
  have "total_runtime f = allreduce_sum (frame_totals (?node # others) p) \<and>
      max_runtime f = Some (allreduce_max (frame_totals (?node # others) p)) \<and>
      avg_runtime f = Some (allreduce_sum (frame_totals (?node # others) p) /
                            real (length (?node # others)))"
    if d: "deref ?m p = Some f" for p f
  proof (cases p)
    case Nil
    with d have "f = ?m" by simp
    then show ?thesis unfolding m Nil by (simp add: frame_totals_def comp_def)
  next
    case (Cons k p')
    from d have "(case find_child k (map ?g cs) of None \<Rightarrow> None | Some c \<Rightarrow> deref c p') = Some f"
      unfolding Cons m by simp
    then obtain c where c: "find_child k cs = Some c" and dc: "deref (?g c) p' = Some f"
      by (auto simp: find_child_map [of cs ?g, OF keys] split: option.splits)
    from find_child_mem [OF c] have mem: "c \<in> set cs" .
    from c have "find_child k (children ?node) = Some c" by simp
    from frame_totals_child [OF this, of others p']
    have ft: "frame_totals (c # map (adopted_child c) others) p' = frame_totals (?node # others) p"
      by (simp add: Cons)
    from IH [OF mem] dc
    have "total_runtime f = allreduce_sum (frame_totals (c # map (adopted_child c) others) p') \<and>
      max_runtime f = Some (allreduce_max (frame_totals (c # map (adopted_child c) others) p')) \<and>
      avg_runtime f = Some (allreduce_sum (frame_totals (c # map (adopted_child c) others) p') /
                            real (length (?node # others)))"
      by blast
    then show ?thesis by (simp only: ft)
  qed
  then have "\<forall>p f. deref ?m p = Some f \<longrightarrow>
      total_runtime f = allreduce_sum (frame_totals (?node # others) p) \<and>
      max_runtime f = Some (allreduce_max (frame_totals (?node # others) p)) \<and>
      avg_runtime f = Some (allreduce_sum (frame_totals (?node # others) p) /
                            real (length (?node # others)))"
    by (intro allI impI)
  with shape show ?case by (rule conjI)
qed

lemma allreduce_max_Max:
  assumes "xs \<noteq> []"
  shows "allreduce_max xs = Max (set xs)"
proof (cases xs)
  case Nil
  with assms show ?thesis by simp
next
  case (Cons x ys)
  have "allreduce_max (x # ys) = fold max ys x" by (simp add: allreduce_max_def)
  with Max.set_eq_fold [of x ys] show ?thesis unfolding Cons by simp
qed



subsection \<open>The allocation ledger\<close>

lemma Allocation_equiv:
  "equiv_by Allocation_less a b \<longleftrightarrow> alloc_size a = alloc_size b \<and> alloc_ptr a = alloc_ptr b"
  by (auto simp: equiv_by_def Allocation_less_def)

text \<open>
  C10. A deallocation succeeds exactly when a live record has the passed size and address:
  the name and the frame passed play no part, and with no record of that size at that
  address the lookup fails and the assertion stops the process.
\<close>

theorem deallocate_matches_size_and_address:
  "((\<exists>a'. Allocations_deallocate nm p sz fr a = Inr a') \<longleftrightarrow>
      (\<exists>r \<in> set (alloc_set a). alloc_size r = sz \<and> alloc_ptr r = p)) \<and>
   (Allocations_deallocate nm p sz fr a = Inl AssertFail \<longleftrightarrow>
      \<not> (\<exists>r \<in> set (alloc_set a). alloc_size r = sz \<and> alloc_ptr r = p))"
proof (cases "set_find Allocation_less
    \<lparr>alloc_name = nm, alloc_ptr = p, alloc_size = sz, alloc_frame = fr\<rparr> (alloc_set a)")
  case None
  then show ?thesis
    using None [unfolded set_find_None]
    by (auto simp: Allocations_deallocate_def Let_def None Allocation_equiv)
next
  case (Some r)
  from set_find_Some [OF Some] show ?thesis
    by (auto simp: Allocations_deallocate_def Let_def Some Allocation_equiv)
qed

theorem deallocate_matches_size_and_address_witness:
  "Allocations_deallocate ''other'' 4096 1000 None example_ledger =
     Inr \<lparr>total_size = 200,
          alloc_set = [\<lparr>alloc_name = ''buf2'', alloc_ptr = 8192, alloc_size = 200,
                        alloc_frame = Some []\<rparr>]\<rparr> \<and>
   Allocations_deallocate ''buf1'' 4096 999 (Some []) example_ledger = Inl AssertFail"
proof -
  have "\<not> (\<exists>r \<in> set (alloc_set example_ledger). alloc_size r = 999 \<and> alloc_ptr r = 4096)"
    by (simp add: example_ledger_def)
  with deallocate_matches_size_and_address [of "''buf1''" 4096 999 "Some []" example_ledger]
  have "Allocations_deallocate ''buf1'' 4096 999 (Some []) example_ledger = Inl AssertFail"
    by blast
  moreover have "Allocations_deallocate ''other'' 4096 1000 None example_ledger =
     Inr \<lparr>total_size = 200,
          alloc_set = [\<lparr>alloc_name = ''buf2'', alloc_ptr = 8192, alloc_size = 200,
                        alloc_frame = Some []\<rparr>]\<rparr>"
    by (simp add: example_ledger_def Allocations_deallocate_def equiv_by_def Allocation_less_def)
  ultimately show ?thesis by blast
qed

subsection \<open>The order of the allocations\<close>

lemma Allocation_less_transp: "transp Allocation_less"
  by (rule transpI) (auto simp: Allocation_less_def split: if_splits)

lemma Allocation_less_irreflp: "irreflp Allocation_less"
  by (rule irreflpI) (simp add: Allocation_less_def)

lemma sorted_wrt_total:
  "sorted_wrt lt xs \<Longrightarrow> x \<in> set xs \<Longrightarrow> y \<in> set xs \<Longrightarrow> x \<noteq> y \<Longrightarrow> lt x y \<or> lt y x"
  by (induction xs) auto

lemma alloc_key_inj:
  assumes "sorted_wrt Allocation_less xs"
  shows "inj_on alloc_key (set xs)"
proof (rule inj_onI)
  fix x y
  assume xy: "x \<in> set xs" "y \<in> set xs" "alloc_key x = alloc_key y"
  then have "equiv_by Allocation_less x y"
    by (simp add: Allocation_equiv alloc_key_def)
  with sorted_wrt_total [OF assms xy(1,2)] show "x = y"
    by (auto simp: equiv_by_def)
qed

lemma live_key_equiv:
  "(sz, p) \<in> live_keys a \<longleftrightarrow>
   (\<exists>x \<in> set (alloc_set a). equiv_by Allocation_less x
        \<lparr>alloc_name = nm, alloc_ptr = p, alloc_size = sz, alloc_frame = fr\<rparr>)"
  by (auto simp: live_keys_def alloc_key_def Allocation_equiv image_iff)

lemma allocate_ok:
  assumes "ledger_inv a" and "(sz, p) \<notin> live_keys a"
  shows "\<exists>a'. Allocations_allocate nm p sz fr a = Inr a' \<and> ledger_inv a' \<and>
           live_keys a' = insert (sz, p) (live_keys a) \<and>
           total_size a' = total_size a + sz"
proof -
  let ?v = "\<lparr>alloc_name = nm, alloc_ptr = p, alloc_size = sz, alloc_frame = fr\<rparr>"
  from assms(1) have s: "sorted_wrt Allocation_less (alloc_set a)"
    and t: "total_size a = sum_list (map alloc_size (alloc_set a))"
    by (simp_all add: ledger_inv_def)
  from assms(2) have ins: "snd (set_emplace Allocation_less ?v (alloc_set a))"
    unfolding set_emplace_inserted [OF Allocation_less_transp s]
    using live_key_equiv [of sz p a nm fr] by blast
  obtain ys where ys: "set_emplace Allocation_less ?v (alloc_set a) = (ys, True)"
    using ins by (cases "set_emplace Allocation_less ?v (alloc_set a)") auto
  have 1: "sorted_wrt Allocation_less ys"
    using set_emplace_sorted [OF Allocation_less_transp s ins] ys by simp
  have 2: "sum_list (map alloc_size ys) = sz + sum_list (map alloc_size (alloc_set a))"
    using set_emplace_sum [OF ins, of alloc_size] ys by simp
  have 3: "set ys = insert ?v (set (alloc_set a))"
    using set_emplace_set [OF ins] ys by simp
  show ?thesis
    using 1 2 3 t
    by (simp add: Allocations_allocate_def ys ledger_inv_def live_keys_def alloc_key_def)
qed

lemma deallocate_ok:
  assumes "ledger_inv a" and "(sz, p) \<in> live_keys a"
  shows "\<exists>a'. Allocations_deallocate nm p sz fr a = Inr a' \<and> ledger_inv a' \<and>
           live_keys a' = live_keys a - {(sz, p)} \<and>
           total_size a' = total_size a - sz \<and>
           live_bytes a' + unat sz = live_bytes a"
proof -
  let ?k = "\<lparr>alloc_name = nm, alloc_ptr = p, alloc_size = sz, alloc_frame = fr\<rparr>"
  from assms(1) have s: "sorted_wrt Allocation_less (alloc_set a)"
    and t: "total_size a = sum_list (map alloc_size (alloc_set a))"
    by (simp_all add: ledger_inv_def)
  from assms(2) have "set_find Allocation_less ?k (alloc_set a) \<noteq> None"
    unfolding set_find_None using live_key_equiv [of sz p a nm fr] by blast
  then obtain it where it: "set_find Allocation_less ?k (alloc_set a) = Some it" by blast
  from set_find_Some [OF it] have mem: "it \<in> set (alloc_set a)"
    and key: "alloc_size it = sz" "alloc_ptr it = p"
    by (simp_all add: Allocation_equiv)
  let ?ys = "set_erase Allocation_less ?k (alloc_set a)"
  have 1: "sorted_wrt Allocation_less ?ys" by (rule set_erase_sorted [OF s])
  have 2: "sum_list (map alloc_size ?ys) + sz = sum_list (map alloc_size (alloc_set a))"
    using set_erase_sum [OF it, of alloc_size] key by simp
  have 3: "sum_list (map (\<lambda>r. unat (alloc_size r)) ?ys) + unat sz =
           sum_list (map (\<lambda>r. unat (alloc_size r)) (alloc_set a))"
    using set_erase_sum [OF it, of "\<lambda>r. unat (alloc_size r)"] key by simp
  have 4: "set ?ys = set (alloc_set a) - {it}"
    by (rule set_erase_set [OF Allocation_less_irreflp s it])
  have 5: "alloc_key ` (set (alloc_set a) - {it}) = alloc_key ` set (alloc_set a) - {(sz, p)}"
    using inj_on_image_set_diff [OF alloc_key_inj [OF s], of "set (alloc_set a)" "{it}"] mem key
    by (simp add: alloc_key_def)
  have 6: "sum_list (map alloc_size ?ys) = total_size a - sz"
    using 2 t by (simp add: algebra_simps)
  show ?thesis
    using 1 3 4 5 6
    by (simp add: Allocations_deallocate_def Let_def it key ledger_inv_def live_keys_def
        live_bytes_def)
qed

lemma State_event_ok:
  assumes "state_inv live s" and "obeys live (e # es)"
  shows "\<exists>s' live'. State_event e s = Inr s' \<and> state_inv live' s' \<and> obeys live' es \<and>
           event_step e s s'"
proof (cases e)
  case (Allocate space nm p sz)
  from assms have inv: "ledger_inv (current_allocations s space)"
    and nk: "(sz, p) \<notin> live_keys (current_allocations s space)"
    and es: "obeys (live(space := insert (sz, p) (live space))) es"
    by (auto simp: state_inv_def Allocate)
  from allocate_ok [OF inv nk, of nm "stack_frame s"] obtain a' where
    a': "Allocations_allocate nm p sz (stack_frame s) (current_allocations s space) = Inr a'"
      "ledger_inv a'" "live_keys a' = insert (sz, p) (live_keys (current_allocations s space))"
      "total_size a' = total_size (current_allocations s space) + sz"
    by blast
  let ?s' = "s\<lparr>current_allocations := (current_allocations s)(space := a'),
               hwm_allocations :=
                 (if total_size a' > total_size (hwm_allocations s space)
                  then (hwm_allocations s)(space := a')
                  else hwm_allocations s)\<rparr>"
  have 1: "State_event e s = Inr ?s'" by (simp add: Allocate State_allocate_def a'(1))
  have 2: "state_inv (live(space := insert (sz, p) (live space))) ?s'"
    using assms(1) a'(2,3) by (auto simp: state_inv_def)
  have 3: "event_step e s ?s'"
    unfolding event_step_def Allocate event.case
    by (rule exI [of _ a']) (simp add: a'(4))
  from 1 2 3 es show ?thesis by blast
next
  case (Deallocate space nm p sz)
  from assms have inv: "ledger_inv (current_allocations s space)"
    and k: "(sz, p) \<in> live_keys (current_allocations s space)"
    and es: "obeys (live(space := live space - {(sz, p)})) es"
    by (auto simp: state_inv_def Deallocate)
  from deallocate_ok [OF inv k, of nm "stack_frame s"] obtain a' where
    a': "Allocations_deallocate nm p sz (stack_frame s) (current_allocations s space) = Inr a'"
      "ledger_inv a'" "live_keys a' = live_keys (current_allocations s space) - {(sz, p)}"
      "total_size a' = total_size (current_allocations s space) - sz"
      "live_bytes a' + unat sz = live_bytes (current_allocations s space)"
    by blast
  let ?s' = "s\<lparr>current_allocations := (current_allocations s)(space := a')\<rparr>"
  have 1: "State_event e s = Inr ?s'" by (simp add: Deallocate State_deallocate_def a'(1))
  have 2: "state_inv (live(space := live space - {(sz, p)})) ?s'"
    using assms(1) a'(2,3) by (auto simp: state_inv_def)
  have 3: "event_step e s ?s'"
    unfolding event_step_def Deallocate event.case
    by (rule exI [of _ a']) (simp add: a'(4,5))
  from 1 2 3 es show ?thesis by blast
qed

lemma run_events_ok:
  assumes "state_inv live s" and "obeys live evs"
  shows "\<exists>tr. run_events s evs = Inr tr \<and> length tr = length evs \<and>
           (\<forall>i < length tr. (\<exists>live'. state_inv live' (tr ! i)) \<and>
                             event_step (evs ! i) ((s # tr) ! i) (tr ! i))"
  using assms
proof (induction evs arbitrary: s live)
  case Nil
  show ?case by simp
next
  case (Cons e es)
  from State_event_ok [OF Cons.prems] obtain s' live' where
    s': "State_event e s = Inr s'" "state_inv live' s'" "obeys live' es" "event_step e s s'"
    by blast
  from Cons.IH [OF s'(2,3)] obtain tr where
    tr: "run_events s' es = Inr tr" "length tr = length es"
      "\<forall>i < length tr. (\<exists>live'. state_inv live' (tr ! i)) \<and>
          event_step (es ! i) ((s' # tr) ! i) (tr ! i)"
    by blast
  have "(\<exists>live'. state_inv live' ((s' # tr) ! i)) \<and>
        event_step ((e # es) ! i) ((s # s' # tr) ! i) ((s' # tr) ! i)"
    if "i < length (s' # tr)" for i
  proof (cases i)
    case 0
    with s'(2,4) show ?thesis by auto
  next
    case (Suc j)
    with that tr(3) show ?thesis by simp
  qed
  with s'(1) tr(1,2) show ?case by simp
qed

lemma unat_sum_list:
  "sum_list (map unat ws) < 2 ^ 64 \<Longrightarrow> unat (sum_list ws) = sum_list (map unat ws)"
  for ws :: "64 word list"
proof (induction ws)
  case Nil
  show ?case by simp
next
  case (Cons w ws)
  then have "unat (sum_list ws) = sum_list (map unat ws)" by simp
  moreover from Cons.prems have "unat w + sum_list (map unat ws) < 2 ^ LENGTH(64)" by simp
  ultimately show ?case by (simp add: unat_add_lem [THEN iffD1])
qed

lemma ledger_total_exact:
  assumes "ledger_inv a" and "live_bytes a < 2 ^ 64"
  shows "unat (total_size a) = live_bytes a"
proof -
  have "sum_list (map unat (map alloc_size (alloc_set a))) = live_bytes a"
    by (simp add: live_bytes_def comp_def)
  with assms show ?thesis
    using unat_sum_list [of "map alloc_size (alloc_set a)"] by (simp add: ledger_inv_def)
qed

text \<open>The snapshot follows the maximum of the totals, one event at a time.\<close>

lemma hwm_step:
  assumes step: "event_step e s s'"
    and inv: "ledger_inv (current_allocations s space)"
    and fit: "live_bytes (current_allocations s space) < 2 ^ 64"
    and le: "total_size (current_allocations s space) \<le> total_size (hwm_allocations s space)"
  shows "total_size (hwm_allocations s' space) =
           max (total_size (hwm_allocations s space)) (total_size (current_allocations s' space))"
proof (cases e)
  case (Allocate sp nm p sz)
  with step le show ?thesis
    by (cases "sp = space") (auto simp: event_step_def max_def)
next
  case (Deallocate sp nm p sz)
  with step obtain a' where a': "current_allocations s' = (current_allocations s)(sp := a')"
    "total_size a' = total_size (current_allocations s sp) - sz"
    "live_bytes a' + unat sz = live_bytes (current_allocations s sp)"
    "hwm_allocations s' = hwm_allocations s"
    by (auto simp: event_step_def)
  show ?thesis
  proof (cases "sp = space")
    case True
    from ledger_total_exact [OF inv fit] a'(3) True
    have "unat sz \<le> unat (total_size (current_allocations s space))" by simp
    then have "sz \<le> total_size (current_allocations s space)" by (simp add: word_le_nat_alt)
    then have "total_size a' \<le> total_size (current_allocations s space)"
      unfolding a'(2) True by (rule word_sub_le)
    with le have "total_size a' \<le> total_size (hwm_allocations s space)"
      by simp
    then have "total_size (current_allocations s' space) \<le> total_size (hwm_allocations s space)"
      by (simp add: a'(1) True)
    then show ?thesis by (simp add: a'(4) max_absorb1)
  next
    case False
    with le have "total_size (current_allocations s' space) \<le> total_size (hwm_allocations s space)"
      by (simp add: a'(1))
    then show ?thesis by (simp add: a'(4) max_absorb1)
  qed
qed

lemma State_init_inv: "state_inv (\<lambda>space. {}) (State_init t)"
  by (simp add: state_inv_def State_init_def ledger_inv_def live_keys_def Allocations_init_def)

lemma hwm_is_max:
  fixes xs :: "State list" and space :: Space
  defines "f \<equiv> \<lambda>s. total_size (current_allocations s space)"
  assumes steps: "\<forall>i. Suc i < length xs \<longrightarrow> event_step (evs ! i) (xs ! i) (xs ! Suc i)"
    and invs: "\<forall>i < length xs. ledger_inv (current_allocations (xs ! i) space)"
    and start: "total_size (hwm_allocations (xs ! 0) space) = f (xs ! 0)"
  shows "i < length xs \<Longrightarrow>
         (\<forall>j < i. live_bytes (current_allocations (xs ! j) space) < 2 ^ 64) \<Longrightarrow>
         total_size (hwm_allocations (xs ! i) space) = Max (set (map f (take (Suc i) xs)))"
proof (induction i)
  case 0
  then have "take (Suc 0) xs = [xs ! 0]"
    by (cases xs) simp_all
  then show ?case by (simp add: start)
next
  case (Suc i)
  from Suc.prems have i: "Suc i < length xs"
    and fit: "live_bytes (current_allocations (xs ! i) space) < 2 ^ 64"
    and fits: "\<forall>j < i. live_bytes (current_allocations (xs ! j) space) < 2 ^ 64"
    by auto
  define ys where "ys = take (Suc i) xs"
  from i have len: "i < length ys" and nth: "ys ! i = xs ! i"
    by (simp_all add: ys_def)
  from Suc.IH [OF _ fits] i
  have IH: "total_size (hwm_allocations (xs ! i) space) = Max (set (map f ys))"
    by (simp add: ys_def)
  from len nth have "xs ! i \<in> set ys" by (metis nth_mem)
  then have "f (xs ! i) \<le> Max (set (map f ys))"
    by (intro Max_ge) auto
  with IH have le: "total_size (current_allocations (xs ! i) space)
      \<le> total_size (hwm_allocations (xs ! i) space)"
    by (simp add: f_def)
  from steps i have step: "event_step (evs ! i) (xs ! i) (xs ! Suc i)" by blast
  from invs i have inv: "ledger_inv (current_allocations (xs ! i) space)" by simp
  from hwm_step [OF step inv fit le] IH
  have 1: "total_size (hwm_allocations (xs ! Suc i) space) =
        max (Max (set (map f ys))) (f (xs ! Suc i))"
    by (simp add: f_def)
  have "take (Suc (Suc i)) xs = ys @ [xs ! Suc i]"
    unfolding ys_def using i by (rule take_Suc_conv_app_nth)
  moreover have "set (map f ys) \<noteq> {}" using len by auto
  ultimately have 2: "Max (set (map f (take (Suc (Suc i)) xs))) =
             max (f (xs ! Suc i)) (Max (set (map f ys)))"
    by (simp add: Max_insert)
  from 1 2 show ?case by (simp only: max.commute)
qed

text \<open>
  C3, amended. From a fresh session, a sequence of events that respects the two rules never
  fails. After each event the total of the current ledger is the sum of the sizes of its
  live records as a 64-bit sum, and a deallocation leaves the snapshots as they were. As
  long as the sizes of the live records have summed to less than \<open>2^64\<close> after every
  event so far, the total is that sum exactly and the total of the snapshot is the largest
  total seen so far.
\<close>

theorem ledger_invariant:
  assumes "obeys (\<lambda>space. {}) evs"
  shows "\<exists>tr. run_events (State_init t) evs = Inr tr \<and> length tr = length evs \<and>
    (\<forall>i < length tr. \<forall>space.
       total_size (current_allocations (tr ! i) space) =
         sum_list (map alloc_size (alloc_set (current_allocations (tr ! i) space))) \<and>
       (\<forall>sp nm p sz. evs ! i = Deallocate sp nm p sz \<longrightarrow>
          hwm_allocations (tr ! i) = hwm_allocations ((State_init t # tr) ! i)) \<and>
       ((\<forall>j \<le> i. live_bytes (current_allocations (tr ! j) space) < 2 ^ 64) \<longrightarrow>
          unat (total_size (current_allocations (tr ! i) space)) =
            live_bytes (current_allocations (tr ! i) space) \<and>
          total_size (hwm_allocations (tr ! i) space) =
            Max (set (map (\<lambda>s. total_size (current_allocations s space))
                       (State_init t # take (Suc i) tr)))))"
proof -
  let ?s0 = "State_init t"
  from run_events_ok [OF State_init_inv assms, of t] obtain tr where
    tr: "run_events ?s0 evs = Inr tr" "length tr = length evs"
    and all: "\<forall>i < length tr. (\<exists>live'. state_inv live' (tr ! i)) \<and>
                 event_step (evs ! i) ((?s0 # tr) ! i) (tr ! i)"
    by blast
  have inv: "ledger_inv (current_allocations (tr ! i) space)" if "i < length tr" for i space
    using all that by (auto simp: state_inv_def)
  have inv0: "ledger_inv (current_allocations ((?s0 # tr) ! i) space)"
    if "i \<le> length tr" for i space
  proof (cases i)
    case 0
    then show ?thesis using State_init_inv [of t] by (simp add: state_inv_def)
  next
    case (Suc j)
    with that inv [of j space] show ?thesis by simp
  qed
  have part: "total_size (current_allocations (tr ! i) space) =
         sum_list (map alloc_size (alloc_set (current_allocations (tr ! i) space))) \<and>
       (\<forall>sp nm p sz. evs ! i = Deallocate sp nm p sz \<longrightarrow>
          hwm_allocations (tr ! i) = hwm_allocations ((?s0 # tr) ! i)) \<and>
       ((\<forall>j \<le> i. live_bytes (current_allocations (tr ! j) space) < 2 ^ 64) \<longrightarrow>
          unat (total_size (current_allocations (tr ! i) space)) =
            live_bytes (current_allocations (tr ! i) space) \<and>
          total_size (hwm_allocations (tr ! i) space) =
            Max (set (map (\<lambda>s. total_size (current_allocations s space))
                       (?s0 # take (Suc i) tr))))"
    if i: "i < length tr" for i space
  proof (intro conjI allI impI)
    show "total_size (current_allocations (tr ! i) space) =
         sum_list (map alloc_size (alloc_set (current_allocations (tr ! i) space)))"
      using inv [OF i, of space] by (simp add: ledger_inv_def)
  next
    fix sp nm p sz
    assume "evs ! i = Deallocate sp nm p sz"
    with all i show "hwm_allocations (tr ! i) = hwm_allocations ((?s0 # tr) ! i)"
      by (auto simp: event_step_def)
  next
    assume fits: "\<forall>j \<le> i. live_bytes (current_allocations (tr ! j) space) < 2 ^ 64"
    then show "unat (total_size (current_allocations (tr ! i) space)) =
            live_bytes (current_allocations (tr ! i) space)"
      using ledger_total_exact [OF inv [OF i, of space]] by simp
  next
    assume fits: "\<forall>j \<le> i. live_bytes (current_allocations (tr ! j) space) < 2 ^ 64"
    have fits0: "live_bytes (current_allocations ((?s0 # tr) ! j) space) < 2 ^ 64"
      if "j < Suc i" for j
    proof (cases j)
      case 0
      then show ?thesis by (simp add: State_init_def Allocations_init_def live_bytes_def)
    next
      case (Suc k)
      with that fits show ?thesis by simp
    qed
    have "total_size (hwm_allocations ((?s0 # tr) ! Suc i) space) =
          Max (set (map (\<lambda>s. total_size (current_allocations s space))
                     (take (Suc (Suc i)) (?s0 # tr))))"
    proof (rule hwm_is_max [where evs = evs])
      show "\<forall>i. Suc i < length (?s0 # tr) \<longrightarrow>
              event_step (evs ! i) ((?s0 # tr) ! i) ((?s0 # tr) ! Suc i)"
        using all by simp
      show "\<forall>i < length (?s0 # tr). ledger_inv (current_allocations ((?s0 # tr) ! i) space)"
        using inv0 by (simp add: less_Suc_eq_le)
      show "total_size (hwm_allocations ((?s0 # tr) ! 0) space) =
            total_size (current_allocations ((?s0 # tr) ! 0) space)"
        by (simp add: State_init_def)
      show "Suc i < length (?s0 # tr)" using i by simp
      show "\<forall>j < Suc i. live_bytes (current_allocations ((?s0 # tr) ! j) space) < 2 ^ 64"
        using fits0 by blast
    qed
    then show "total_size (hwm_allocations (tr ! i) space) =
            Max (set (map (\<lambda>s. total_size (current_allocations s space))
                       (?s0 # take (Suc i) tr)))"
      by simp
  qed
  from tr part show ?thesis by blast
qed

lemma overflow_totals:
  "(case run_events (State_init 0) overflow_events of
      Inl e \<Rightarrow> False
    | Inr tr \<Rightarrow>
        map (\<lambda>s. total_size (current_allocations s SPACE_HOST)) tr =
          [9223372036854775808, 5, 9223372036854775813])"
  by (simp add: overflow_events_def State_init_def State_allocate_def State_deallocate_def
      Allocations_allocate_def Allocations_deallocate_def Allocations_init_def
      Allocation_less_def equiv_by_def)

lemma overflow_live_bytes:
  "(case run_events (State_init 0) overflow_events of
      Inl e \<Rightarrow> False
    | Inr tr \<Rightarrow>
        map (\<lambda>s. live_bytes (current_allocations s SPACE_HOST)) tr =
          [9223372036854775808, 18446744073709551621, 9223372036854775813])"
  by (simp add: overflow_events_def State_init_def State_allocate_def State_deallocate_def
      Allocations_allocate_def Allocations_deallocate_def Allocations_init_def
      Allocation_less_def equiv_by_def live_bytes_def)

lemma overflow_hwm:
  "(case run_events (State_init 0) overflow_events of
      Inl e \<Rightarrow> False
    | Inr tr \<Rightarrow>
        map (\<lambda>s. total_size (hwm_allocations s SPACE_HOST)) tr =
          [9223372036854775808, 9223372036854775808, 9223372036854775808])"
  by (simp add: overflow_events_def State_init_def State_allocate_def State_deallocate_def
      Allocations_allocate_def Allocations_deallocate_def Allocations_init_def
      Allocation_less_def equiv_by_def)

lemma overflow_obeys: "obeys (\<lambda>space. {}) overflow_events"
  by (simp add: overflow_events_def)

text \<open>
  C3, as stated, fails when the sizes overflow the 64-bit total: after the second event
  below the total is 5 while the live sizes sum to \<open>2^64 + 5\<close>, and after the third the
  total, \<open>2^63 + 5\<close>, is above the total \<open>2^63\<close> of the snapshot.
\<close>

theorem ledger_overflow:
  "obeys (\<lambda>space. {}) overflow_events \<and>
   (case run_events (State_init 0) overflow_events of
      Inl e \<Rightarrow> False
    | Inr tr \<Rightarrow>
        map (\<lambda>s. total_size (current_allocations s SPACE_HOST)) tr =
          [9223372036854775808, 5, 9223372036854775813] \<and>
        map (\<lambda>s. live_bytes (current_allocations s SPACE_HOST)) tr =
          [9223372036854775808, 18446744073709551621, 9223372036854775813] \<and>
        map (\<lambda>s. total_size (hwm_allocations s SPACE_HOST)) tr =
          [9223372036854775808, 9223372036854775808, 9223372036854775808])"
proof (cases "run_events (State_init 0) overflow_events")
  case (Inl e)
  with overflow_totals show ?thesis by simp
next
  case (Inr tr)
  with overflow_totals overflow_live_bytes overflow_hwm overflow_obeys show ?thesis by simp
qed

lemma scenario_obeys: "obeys (\<lambda>space. {}) scenario_events"
  by (simp add: scenario_events_def)

lemma scenario_totals:
  "(case run_events (State_init 0) scenario_events of
      Inl e \<Rightarrow> False
    | Inr tr \<Rightarrow>
        map (\<lambda>s. total_size (current_allocations s SPACE_HOST)) tr = [1000, 1200, 200])"
  by (simp add: scenario_events_def State_init_def State_allocate_def State_deallocate_def
      Allocations_allocate_def Allocations_deallocate_def Allocations_init_def
      Allocation_less_def equiv_by_def)

lemma scenario_hwm:
  "(case run_events (State_init 0) scenario_events of
      Inl e \<Rightarrow> False
    | Inr tr \<Rightarrow>
        map (\<lambda>s. hwm_allocations s SPACE_HOST) tr =
          [\<lparr>total_size = 1000,
            alloc_set = [\<lparr>alloc_name = ''buf1'', alloc_ptr = 4096, alloc_size = 1000,
                          alloc_frame = Some []\<rparr>]\<rparr>,
           example_ledger, example_ledger])"
  by (simp add: scenario_events_def State_init_def State_allocate_def State_deallocate_def
      Allocations_allocate_def Allocations_deallocate_def Allocations_init_def
      Allocation_less_def equiv_by_def example_ledger_def)

theorem ledger_invariant_witness:
  "obeys (\<lambda>space. {}) scenario_events \<and>
   (\<exists>tr. run_events (State_init 0) scenario_events = Inr tr \<and>
      map (\<lambda>s. total_size (current_allocations s SPACE_HOST)) tr = [1000, 1200, 200] \<and>
      map (\<lambda>s. hwm_allocations s SPACE_HOST) tr =
        [\<lparr>total_size = 1000,
          alloc_set = [\<lparr>alloc_name = ''buf1'', alloc_ptr = 4096, alloc_size = 1000,
                        alloc_frame = Some []\<rparr>]\<rparr>,
         example_ledger, example_ledger] \<and>
      total_size (current_allocations (tr ! 2) SPACE_HOST) =
        sum_list (map alloc_size (alloc_set (current_allocations (tr ! 2) SPACE_HOST))) \<and>
      hwm_allocations (tr ! 2) = hwm_allocations (tr ! 1))"
proof -
  from ledger_invariant [OF scenario_obeys, of 0] obtain tr where
    tr: "run_events (State_init 0) scenario_events = Inr tr" "length tr = length scenario_events"
    and all: "\<forall>i < length tr. \<forall>space.
       total_size (current_allocations (tr ! i) space) =
         sum_list (map alloc_size (alloc_set (current_allocations (tr ! i) space))) \<and>
       (\<forall>sp nm p sz. scenario_events ! i = Deallocate sp nm p sz \<longrightarrow>
          hwm_allocations (tr ! i) = hwm_allocations ((State_init 0 # tr) ! i)) \<and>
       ((\<forall>j \<le> i. live_bytes (current_allocations (tr ! j) space) < 2 ^ 64) \<longrightarrow>
          unat (total_size (current_allocations (tr ! i) space)) =
            live_bytes (current_allocations (tr ! i) space) \<and>
          total_size (hwm_allocations (tr ! i) space) =
            Max (set (map (\<lambda>s. total_size (current_allocations s space))
                       (State_init 0 # take (Suc i) tr))))"
    by blast
  from tr(2) have len: "2 < length tr" by (simp add: scenario_events_def)
  have ev: "scenario_events ! 2 = Deallocate SPACE_HOST ''buf1'' 4096 1000"
    by (simp add: scenario_events_def)
  from all len have a: "total_size (current_allocations (tr ! 2) SPACE_HOST) =
        sum_list (map alloc_size (alloc_set (current_allocations (tr ! 2) SPACE_HOST)))"
    by blast
  from all len ev have "hwm_allocations (tr ! 2) = hwm_allocations ((State_init 0 # tr) ! 2)"
    by blast
  then have b: "hwm_allocations (tr ! 2) = hwm_allocations (tr ! 1)" by simp
  from scenario_totals scenario_hwm tr(1) a b scenario_obeys show ?thesis by simp
qed

end
